theory Spec2Isabelle
  imports Main "HOL-Library.Word" "HOL-Library.Multiset"
begin

unbundle bit_operations_syntax

section \<open>Data model\<close>

text \<open>
  The two heap files, \<^verbatim>\<open>event_queue.c\<close> and \<^verbatim>\<open>queue.c\<close>, embedded as functions
  over explicit state.

  \<^item> \<^verbatim>\<open>unsigned int\<close> is \<open>32 word\<close>, \<^verbatim>\<open>uint64_t\<close> is \<open>64 word\<close>, \<^verbatim>\<open>int\<close> is
    \<open>32 word\<close> compared as two's complement (\<open>\<le>s\<close>). All arithmetic on them wraps.
  \<^item> \<^verbatim>\<open>size_t\<close> is taken to be 64 bits wide (LP64), so \<^verbatim>\<open>cap * sizeof(struct event)\<close>
    does not overflow and an allocation of \<^verbatim>\<open>cap\<close> events has exactly
    \<open>unat cap\<close> slots.
  \<^item> A pointer to an array is \<open>None\<close> for \<^verbatim>\<open>NULL\<close> and \<open>Some d\<close> for an allocated
    block whose slots hold the list \<open>d\<close>; the queue is the only owner of its block
    (\<^verbatim>\<open>restrict\<close>), so no store is needed. Slots never written hold arbitrary events.
  \<^item> A read or write outside the block, or through \<^verbatim>\<open>NULL\<close>, is undefined behaviour
    in C. It is a \<open>fault\<close> here, returned together with the state reached so far.
  \<^item> The callback and the payload pointer of an event are opaque addresses (\<open>nat\<close>).
\<close>

record event =
  "when" :: "64 word"
  occur :: nat
  data :: nat

text \<open>
  \<^verbatim>\<open>struct event_queue\<close>. The array field \<^verbatim>\<open>data\<close> is called \<open>buffer\<close> here, since
  \<open>data\<close> is already the payload field of \<open>event\<close>.
\<close>

record event_queue =
  count :: "32 word"
  cap :: "32 word"
  buffer :: "event list option"

text \<open>
  \<^verbatim>\<open>struct queue\<close> of \<^verbatim>\<open>queue.c\<close>: fields \<^verbatim>\<open>count\<close> and \<^verbatim>\<open>data\<close>, prefixed with
  \<open>q\<close> to keep them apart from those of \<open>event_queue\<close>. The array is supplied by the
  caller; its length is the capacity the caller promised.
\<close>

record queue =
  qcount :: "32 word"
  qdata :: "32 word list"

datatype fault = Null_deref | Out_of_bounds

text \<open>\<^verbatim>\<open>d[i]\<close> as an rvalue and \<^verbatim>\<open>d[i] = v\<close>, on an allocated block.\<close>

definition rd :: "'a list \<Rightarrow> 32 word \<Rightarrow> fault + 'a" where
  "rd d i = (if unat i < length d then Inr (d ! unat i) else Inl Out_of_bounds)"

definition wr :: "'a list \<Rightarrow> 32 word \<Rightarrow> 'a \<Rightarrow> fault + 'a list" where
  "wr d i v = (if unat i < length d then Inr (d[unat i := v]) else Inl Out_of_bounds)"

text \<open>
  The allocator is outside the program: each call that may allocate takes its outcome as
  an argument. \<open>Alloc_fails\<close>: the call returns \<^verbatim>\<open>NULL\<close>. \<open>Alloc_gives junk\<close>: it
  returns a block, and slot \<open>i\<close> of it, where it is new, holds \<open>junk i\<close>.
  \<^verbatim>\<open>realloc\<close> keeps the old contents up to the smaller of the two sizes and, when it
  fails, leaves the old block alone; \<^verbatim>\<open>realloc(NULL, n)\<close> is \<^verbatim>\<open>malloc(n)\<close>.
\<close>

datatype allocator = Alloc_fails | Alloc_gives "nat \<Rightarrow> event"

definition realloc :: "allocator \<Rightarrow> event list option \<Rightarrow> nat \<Rightarrow> event list option" where
  "realloc a p n =
     (case a of
        Alloc_fails \<Rightarrow> None
      | Alloc_gives junk \<Rightarrow>
          let old = (case p of None \<Rightarrow> [] | Some d \<Rightarrow> d)
          in Some (take n old @ map junk [length old..<n]))"

definition malloc :: "allocator \<Rightarrow> nat \<Rightarrow> event list option" where
  "malloc a n = realloc a None n"

text \<open>The comparison macros: \<^verbatim>\<open>EVENT_CMP(a, b)\<close> and \<^verbatim>\<open>CMP(a, b)\<close>.\<close>

definition EVENT_CMP :: "event \<Rightarrow> event \<Rightarrow> bool" where
  "EVENT_CMP a b = (when a \<le> when b)"

definition CMP :: "32 word \<Rightarrow> 32 word \<Rightarrow> bool" where
  "CMP a b = (a \<le>s b)"

section \<open>The event queue\<close>

text \<open>
  \<^verbatim>\<open>event_queue_init\<close>: the queue is written through the pointer whatever \<^verbatim>\<open>malloc\<close>
  returns, so the model returns the status together with the queue.
\<close>

definition event_queue_init :: "allocator \<Rightarrow> 32 word \<Rightarrow> int \<times> event_queue" where
  "event_queue_init a c =
     (let queue = \<lparr>count = 0, cap = c, buffer = malloc a (unat c)\<rparr>
      in if buffer queue = None then (1, queue) else (0, queue))"

lemma unat_parent: "index \<noteq> 0 \<Longrightarrow> unat (drop_bit 1 (index - 1 :: 32 word)) = (unat index - 1) div 2"
proof -
  assume nz: "index \<noteq> 0"
  have "unat (drop_bit 1 (index - 1)) = drop_bit 1 (unat (index - 1))"
    by (rule unat_drop_bit_eq)
  also have "\<dots> = unat (index - 1) div 2"
    by (simp add: drop_bit_eq_div)
  also have "unat (index - 1) = unat index - 1"
    using nz by (rule unat_minus_one)
  finally show ?thesis .
qed

text \<open>
  The \<^verbatim>\<open>for\<close> loop of \<^verbatim>\<open>event_queue_push\<close> (lines 44 to 49), entered with
  \<open>index\<close> already set. It returns the block and the index at which the loop stopped;
  the store of line 50 is done by the caller.
\<close>

function event_queue_push_loop ::
  "event list \<Rightarrow> event \<Rightarrow> 32 word \<Rightarrow> fault \<times> event list + event list \<times> 32 word" where
  "event_queue_push_loop d val index =
     (if index = 0 then Inr (d, index)
      else
        let parent = drop_bit 1 (index - 1) in
        case rd d parent of
          Inl f \<Rightarrow> Inl (f, d)
        | Inr p \<Rightarrow>
            if EVENT_CMP p val then Inr (d, index)
            else (case wr d index p of
                    Inl f \<Rightarrow> Inl (f, d)
                  | Inr d' \<Rightarrow> event_queue_push_loop d' val parent))"
  by pat_completeness auto
termination
proof (relation "measure (\<lambda>(d, v, i). unat i)")
  show "wf (measure (\<lambda>(d, v, i). unat i))"
    by simp
next
  fix d :: "event list" and val :: event and index parent :: "32 word"
    and p :: event and d' :: "event list"
  assume "index \<noteq> 0" and "parent = drop_bit 1 (index - 1)"
  moreover from \<open>index \<noteq> 0\<close> have "0 < unat index"
    by (simp add: unat_gt_0)
  ultimately have "unat parent < unat index"
    using unat_parent [of index] by simp
  then show "((d', val, parent), (d, val, index)) \<in> measure (\<lambda>(d, v, i). unat i)"
    by simp
qed

declare event_queue_push_loop.simps [simp del]

text \<open>
  \<^verbatim>\<open>event_queue_push\<close>. The result is \<open>Inr (status, queue)\<close> when the call returns and
  \<open>Inl (fault, queue)\<close> when it runs into undefined behaviour.
\<close>

definition event_queue_push ::
  "allocator \<Rightarrow> event_queue \<Rightarrow> event \<Rightarrow> fault \<times> event_queue + int \<times> event_queue" where
  "event_queue_push a h val =
     (let h1 = (if count h = cap h
                then h\<lparr>cap := cap h * 2, buffer := realloc a (buffer h) (unat (cap h * 2))\<rparr>
                else h)
      in if count h = cap h \<and> buffer h1 = None then Inr (1, h1)
         else
           let index = count h1;
               h2 = h1\<lparr>count := count h1 + 1\<rparr>
           in (case buffer h2 of
                 None \<Rightarrow> Inl (Null_deref, h2)
               | Some d \<Rightarrow>
                   (case event_queue_push_loop d val index of
                      Inl (f, d') \<Rightarrow> Inl (f, h2\<lparr>buffer := Some d'\<rparr>)
                    | Inr (d', index') \<Rightarrow>
                        (case wr d' index' val of
                           Inl f \<Rightarrow> Inl (f, h2\<lparr>buffer := Some d'\<rparr>)
                         | Inr d'' \<Rightarrow> Inr (0, h2\<lparr>buffer := Some d''\<rparr>)))))"

text \<open>
  The choice of the child to compare with, in \<^verbatim>\<open>event_queue_pop\<close> (lines 70 and 71):
  \<open>swap\<close> comes in as the left child and goes out as the chosen one. \<^verbatim>\<open>&&\<close> reads
  the two slots only when \<open>other\<close> is below the count.
\<close>

definition event_queue_pop_child :: "32 word \<Rightarrow> event list \<Rightarrow> 32 word \<Rightarrow> fault + 32 word" where
  "event_queue_pop_child n d swap =
     (let other = swap + 1 in
      if other < n
      then (case rd d other of
              Inl f \<Rightarrow> Inl f
            | Inr a \<Rightarrow> (case rd d swap of
                         Inl f \<Rightarrow> Inl f
                       | Inr b \<Rightarrow> Inr (if EVENT_CMP a b then other else swap)))
      else Inr swap)"

text \<open>
  The \<^verbatim>\<open>for\<close> loop of \<^verbatim>\<open>event_queue_pop\<close> (lines 65 to 75). \<open>n\<close> is \<^verbatim>\<open>h->count\<close>
  after the decrement; \<^verbatim>\<open>temp\<close> points at slot \<open>n\<close> and is read through the pointer
  each time. The index arithmetic wraps, and the loop need not end: \<open>None\<close> is a run that
  never leaves it.
\<close>

partial_function (option) event_queue_pop_loop ::
  "32 word \<Rightarrow> event list \<Rightarrow> 32 word \<Rightarrow> (fault \<times> event list + event list \<times> 32 word) option" where
  "event_queue_pop_loop n d index =
     (let swap = push_bit 1 index + 1 in
      if swap \<ge> n then Some (Inr (d, index))
      else
        case event_queue_pop_child n d swap of
          Inl f \<Rightarrow> Some (Inl (f, d))
        | Inr swap \<Rightarrow>
            (case rd d n of
               Inl f \<Rightarrow> Some (Inl (f, d))
             | Inr t \<Rightarrow>
                 (case rd d swap of
                    Inl f \<Rightarrow> Some (Inl (f, d))
                  | Inr c \<Rightarrow>
                      if EVENT_CMP t c then Some (Inr (d, index))
                      else (case wr d index c of
                              Inl f \<Rightarrow> Some (Inl (f, d))
                            | Inr d' \<Rightarrow> event_queue_pop_loop n d' swap))))"

text \<open>
  \<^verbatim>\<open>event_queue_pop\<close>. There is no test for an empty queue in the source: with
  \<open>count h = 0\<close> the decrement wraps to \<open>2^32 - 1\<close>.
\<close>

definition event_queue_pop ::
  "event_queue \<Rightarrow> (fault \<times> event_queue + event \<times> event_queue) option" where
  "event_queue_pop h =
     (case buffer h of
        None \<Rightarrow> Some (Inl (Null_deref, h))
      | Some d \<Rightarrow>
          (case rd d 0 of
             Inl f \<Rightarrow> Some (Inl (f, h))
           | Inr result \<Rightarrow>
               (let n = count h - 1;
                    h1 = h\<lparr>count := n\<rparr>
                in (case event_queue_pop_loop n d 0 of
                      None \<Rightarrow> None
                    | Some (Inl (f, d')) \<Rightarrow> Some (Inl (f, h1\<lparr>buffer := Some d'\<rparr>))
                    | Some (Inr (d', index)) \<Rightarrow>
                        (case rd d' n of
                           Inl f \<Rightarrow> Some (Inl (f, h1\<lparr>buffer := Some d'\<rparr>))
                         | Inr t \<Rightarrow>
                             (case wr d' index t of
                                Inl f \<Rightarrow> Some (Inl (f, h1\<lparr>buffer := Some d'\<rparr>))
                              | Inr d'' \<Rightarrow> Some (Inr (result, h1\<lparr>buffer := Some d''\<rparr>))))))))"

section \<open>The heap of integers\<close>

text \<open>
  \<^verbatim>\<open>queue_push\<close> of \<^verbatim>\<open>queue.c\<close>: the same loop over \<^verbatim>\<open>int\<close> keys, with no
  capacity field and no allocation. First its \<^verbatim>\<open>for\<close> loop (lines 16 to 21).
\<close>

function queue_push_loop ::
  "32 word list \<Rightarrow> 32 word \<Rightarrow> 32 word \<Rightarrow> fault \<times> 32 word list + 32 word list \<times> 32 word" where
  "queue_push_loop d val index =
     (if index = 0 then Inr (d, index)
      else
        let parent = drop_bit 1 (index - 1) in
        case rd d parent of
          Inl f \<Rightarrow> Inl (f, d)
        | Inr p \<Rightarrow>
            if CMP p val then Inr (d, index)
            else (case wr d index p of
                    Inl f \<Rightarrow> Inl (f, d)
                  | Inr d' \<Rightarrow> queue_push_loop d' val parent))"
  by pat_completeness auto
termination
proof (relation "measure (\<lambda>(d, v, i). unat i)")
  show "wf (measure (\<lambda>(d, v, i). unat i))"
    by simp
next
  fix d d' :: "32 word list" and val index parent p :: "32 word"
  assume "index \<noteq> 0" and "parent = drop_bit 1 (index - 1)"
  moreover from \<open>index \<noteq> 0\<close> have "0 < unat index"
    by (simp add: unat_gt_0)
  ultimately have "unat parent < unat index"
    using unat_parent [of index] by simp
  then show "((d', val, parent), (d, val, index)) \<in> measure (\<lambda>(d, v, i). unat i)"
    by simp
qed

declare queue_push_loop.simps [simp del]

definition queue_push :: "queue \<Rightarrow> 32 word \<Rightarrow> fault \<times> queue + queue" where
  "queue_push h val =
     (let index = qcount h;
          h1 = h\<lparr>qcount := qcount h + 1\<rparr>
      in case queue_push_loop (qdata h1) val index of
           Inl (f, d') \<Rightarrow> Inl (f, h1\<lparr>qdata := d'\<rparr>)
         | Inr (d', index') \<Rightarrow>
             (case wr d' index' val of
                Inl f \<Rightarrow> Inl (f, h1\<lparr>qdata := d'\<rparr>)
              | Inr d'' \<Rightarrow> Inr (h1\<lparr>qdata := d''\<rparr>)))"

text \<open>The choice of the child in \<^verbatim>\<open>queue_pop\<close> (lines 40 and 41).\<close>

definition queue_pop_child :: "32 word \<Rightarrow> 32 word list \<Rightarrow> 32 word \<Rightarrow> fault + 32 word" where
  "queue_pop_child n d swap =
     (let other = swap + 1 in
      if other < n
      then (case rd d other of
              Inl f \<Rightarrow> Inl f
            | Inr a \<Rightarrow> (case rd d swap of
                         Inl f \<Rightarrow> Inl f
                       | Inr b \<Rightarrow> Inr (if CMP a b then other else swap)))
      else Inr swap)"

text \<open>
  The \<^verbatim>\<open>for\<close> loop of \<^verbatim>\<open>queue_pop\<close> (lines 35 to 45). Here \<^verbatim>\<open>temp\<close> is a copy
  taken before the loop, not a pointer.
\<close>

partial_function (option) queue_pop_loop ::
  "32 word \<Rightarrow> 32 word \<Rightarrow> 32 word list \<Rightarrow> 32 word
    \<Rightarrow> (fault \<times> 32 word list + 32 word list \<times> 32 word) option" where
  "queue_pop_loop n temp d index =
     (let swap = push_bit 1 index + 1 in
      if swap \<ge> n then Some (Inr (d, index))
      else
        case queue_pop_child n d swap of
          Inl f \<Rightarrow> Some (Inl (f, d))
        | Inr swap \<Rightarrow>
            (case rd d swap of
               Inl f \<Rightarrow> Some (Inl (f, d))
             | Inr c \<Rightarrow>
                 if CMP temp c then Some (Inr (d, index))
                 else (case wr d index c of
                         Inl f \<Rightarrow> Some (Inl (f, d))
                       | Inr d' \<Rightarrow> queue_pop_loop n temp d' swap)))"

definition queue_pop :: "queue \<Rightarrow> (fault \<times> queue + 32 word \<times> queue) option" where
  "queue_pop h =
     (case rd (qdata h) 0 of
        Inl f \<Rightarrow> Some (Inl (f, h))
      | Inr result \<Rightarrow>
          (let n = qcount h - 1;
               h1 = h\<lparr>qcount := n\<rparr>
           in (case rd (qdata h1) n of
                 Inl f \<Rightarrow> Some (Inl (f, h1))
               | Inr temp \<Rightarrow>
                   (case queue_pop_loop n temp (qdata h1) 0 of
                      None \<Rightarrow> None
                    | Some (Inl (f, d')) \<Rightarrow> Some (Inl (f, h1\<lparr>qdata := d'\<rparr>))
                    | Some (Inr (d', index)) \<Rightarrow>
                        (case wr d' index temp of
                           Inl f \<Rightarrow> Some (Inl (f, h1\<lparr>qdata := d'\<rparr>))
                         | Inr d'' \<Rightarrow> Some (Inr (result, h1\<lparr>qdata := d''\<rparr>)))))))"

section \<open>The heap algorithm on lists\<close>

text \<open>
  The two loops once more, over \<open>nat\<close> indices and a list, for any key into a linear
  order. \<open>sift_up key xs v i\<close> is the loop of the push functions started with the hole
  at \<open>i\<close>, followed by the final store of \<open>v\<close>; \<open>sift_down key n t xs i\<close> is the loop
  of the pop functions over \<open>n\<close> live slots, followed by the final store of \<open>t\<close>. The
  source's loops are shown below to compute these functions wherever no index leaves the
  block or wraps.
\<close>

fun sift_up :: "('a \<Rightarrow> 'k::linorder) \<Rightarrow> 'a list \<Rightarrow> 'a \<Rightarrow> nat \<Rightarrow> 'a list" where
  "sift_up key xs v i =
     (if i = 0 then xs[0 := v]
      else if key (xs ! ((i - 1) div 2)) \<le> key v then xs[i := v]
      else sift_up key (xs[i := xs ! ((i - 1) div 2)]) v ((i - 1) div 2))"

declare sift_up.simps [simp del]

definition min_child :: "('a \<Rightarrow> 'k::linorder) \<Rightarrow> nat \<Rightarrow> 'a list \<Rightarrow> nat \<Rightarrow> nat" where
  "min_child key n xs i =
     (if 2 * i + 2 < n \<and> key (xs ! (2 * i + 2)) \<le> key (xs ! (2 * i + 1))
      then 2 * i + 2 else 2 * i + 1)"

lemma min_child_gt: "i < min_child key n xs i"
  by (simp add: min_child_def)

lemma min_child_less: "\<not> n \<le> 2 * i + 1 \<Longrightarrow> min_child key n xs i < n"
  by (simp add: min_child_def)

lemma min_child_parent: "(min_child key n xs i - 1) div 2 = i"
  by (simp add: min_child_def)

function sift_down :: "('a \<Rightarrow> 'k::linorder) \<Rightarrow> nat \<Rightarrow> 'a \<Rightarrow> 'a list \<Rightarrow> nat \<Rightarrow> 'a list" where
  "sift_down key n t xs i =
     (if n \<le> 2 * i + 1 then xs[i := t]
      else if key t \<le> key (xs ! min_child key n xs i) then xs[i := t]
      else sift_down key n t (xs[i := xs ! min_child key n xs i]) (min_child key n xs i))"
  by pat_completeness auto
termination
proof (relation "measure (\<lambda>(key, n, t, xs, i). n - i)")
  show "wf (measure (\<lambda>(key, n, t, xs, i). n - i))"
    by simp
next
  fix key :: "'a \<Rightarrow> 'k::linorder" and n :: nat and t :: 'a and xs :: "'a list" and i :: nat
  assume "\<not> n \<le> 2 * i + 1"
  then show "((key, n, t, xs[i := xs ! min_child key n xs i], min_child key n xs i), (key, n, t, xs, i))
               \<in> measure (\<lambda>(key, n, t, xs, i). n - i)"
    using min_child_gt [of i key n xs] min_child_less [of n i key xs] by simp
qed

declare sift_down.simps [simp del]

definition heap_on :: "('a \<Rightarrow> 'k::linorder) \<Rightarrow> 'a list \<Rightarrow> nat \<Rightarrow> bool" where
  "heap_on key xs n = list_all (\<lambda>i. key (xs ! ((i - 1) div 2)) \<le> key (xs ! i)) [1..<n]"

lemma heap_on_iff:
  "heap_on key xs n \<longleftrightarrow> (\<forall>j. 0 < j \<and> j < n \<longrightarrow> key (xs ! ((j - 1) div 2)) \<le> key (xs ! j))"
  by (auto simp: heap_on_def list_all_iff)

lemma length_sift_up [simp]: "length (sift_up key xs v i) = length xs"
  by (induction key xs v i rule: sift_up.induct) (subst sift_up.simps, simp)

lemma length_sift_down [simp]: "length (sift_down key n t xs i) = length xs"
  by (induction key n t xs i rule: sift_down.induct) (subst sift_down.simps, simp)

lemma sift_up_heap:
  assumes "i < m" "m \<le> length xs"
    and "\<forall>j. 0 < j \<and> j < m \<and> j \<noteq> i \<and> (j - 1) div 2 \<noteq> i \<longrightarrow> key (xs ! ((j - 1) div 2)) \<le> key (xs ! j)"
    and "\<forall>j. 0 < j \<and> j < m \<and> (j - 1) div 2 = i \<longrightarrow> key v \<le> key (xs ! j)"
    and "\<forall>j. 0 < j \<and> j < m \<and> (j - 1) div 2 = i \<and> 0 < i \<longrightarrow> key (xs ! ((i - 1) div 2)) \<le> key (xs ! j)"
  shows "heap_on key (sift_up key xs v i) m"
  using assms
proof (induction key xs v i rule: sift_up.induct)
  case (1 key xs v i)
  note A = "1.prems"(3) and B = "1.prems"(4) and C = "1.prems"(5)
  let ?p = "(i - 1) div 2"
  show ?case
  proof (cases "i = 0 \<or> key (xs ! ?p) \<le> key v")
    case True
    then have eq: "sift_up key xs v i = xs[i := v]"
      by (subst sift_up.simps) auto
    show ?thesis
      unfolding eq heap_on_iff
    proof (intro allI impI)
      fix j assume j: "0 < j \<and> j < m"
      have pj: "(j - 1) div 2 < j" using j by arith
      show "key (xs[i := v] ! ((j - 1) div 2)) \<le> key (xs[i := v] ! j)"
        using j pj True A [rule_format, of j] B [rule_format, of j] "1.prems"(1,2)
        by (auto simp: nth_list_update)
    qed
  next
    case False
    then have i0: "i \<noteq> 0" and lt: "key v < key (xs ! ?p)"
      by auto
    have eq: "sift_up key xs v i = sift_up key (xs[i := xs ! ?p]) v ?p"
      using False by (subst sift_up.simps) auto
    have pi: "?p < i" using i0 by arith
    show ?thesis
      unfolding eq
    proof (rule "1.IH")
      show "i \<noteq> 0" by fact
      show "\<not> key (xs ! ?p) \<le> key v" using lt by simp
      show "?p < m" using pi "1.prems"(1) by simp
      show "m \<le> length (xs[i := xs ! ?p])" using "1.prems"(2) by simp
      show "\<forall>j. 0 < j \<and> j < m \<and> j \<noteq> ?p \<and> (j - 1) div 2 \<noteq> ?p \<longrightarrow>
              key (xs[i := xs ! ?p] ! ((j - 1) div 2)) \<le> key (xs[i := xs ! ?p] ! j)"
      proof (intro allI impI)
        fix j assume j: "0 < j \<and> j < m \<and> j \<noteq> ?p \<and> (j - 1) div 2 \<noteq> ?p"
        show "key (xs[i := xs ! ?p] ! ((j - 1) div 2)) \<le> key (xs[i := xs ! ?p] ! j)"
          using j A [rule_format, of j] C [rule_format, of j] "1.prems"(1,2) i0
          by (auto simp: nth_list_update)
      qed
      show "\<forall>j. 0 < j \<and> j < m \<and> (j - 1) div 2 = ?p \<longrightarrow> key v \<le> key (xs[i := xs ! ?p] ! j)"
      proof (intro allI impI)
        fix j assume j: "0 < j \<and> j < m \<and> (j - 1) div 2 = ?p"
        show "key v \<le> key (xs[i := xs ! ?p] ! j)"
        proof (cases "j = i")
          case True
          then show ?thesis using lt "1.prems"(1,2) by simp
        next
          case False
          have "(j - 1) div 2 \<noteq> i" using j pi by simp
          then have "key (xs ! ?p) \<le> key (xs ! j)"
            using A [rule_format, of j] j False by simp
          then show ?thesis using lt False by simp
        qed
      qed
      show "\<forall>j. 0 < j \<and> j < m \<and> (j - 1) div 2 = ?p \<and> 0 < ?p \<longrightarrow>
              key (xs[i := xs ! ?p] ! ((?p - 1) div 2)) \<le> key (xs[i := xs ! ?p] ! j)"
      proof (intro allI impI)
        fix j assume j: "0 < j \<and> j < m \<and> (j - 1) div 2 = ?p \<and> 0 < ?p"
        have pp: "(?p - 1) div 2 < ?p" using j by arith
        have ppi: "(?p - 1) div 2 \<noteq> i" using pp pi by arith
        have "?p < m" using pi "1.prems"(1) by simp
        then have 1: "key (xs ! ((?p - 1) div 2)) \<le> key (xs ! ?p)"
          using A [rule_format, of ?p] j pi ppi by simp
        show "key (xs[i := xs ! ?p] ! ((?p - 1) div 2)) \<le> key (xs[i := xs ! ?p] ! j)"
        proof (cases "j = i")
          case True
          then show ?thesis using 1 ppi "1.prems"(1,2) by simp
        next
          case False
          have "(j - 1) div 2 \<noteq> i" using j pi by simp
          then have "key (xs ! ?p) \<le> key (xs ! j)"
            using A [rule_format, of j] j False by simp
          then show ?thesis using 1 ppi False by simp
        qed
      qed
    qed
  qed
qed


lemma parent_eq_iff: "0 < j \<Longrightarrow> ((j - 1) div 2 = i) = (j = 2 * i + 1 \<or> j = 2 * i + (2::nat))"
  by arith

lemma min_child_least:
  assumes "0 < j" "j < n" "(j - 1) div 2 = i"
  shows "key (xs ! min_child key n xs i) \<le> key (xs ! j)"
proof -
  have "j = 2 * i + 1 \<or> j = 2 * i + 2"
    using assms parent_eq_iff [of j i] by simp
  then show ?thesis
    using assms by (auto simp: min_child_def)
qed

lemma sift_down_heap:
  assumes "i < n" "n \<le> length xs"
    and "\<forall>j. 0 < j \<and> j < n \<and> j \<noteq> i \<and> (j - 1) div 2 \<noteq> i \<longrightarrow> key (xs ! ((j - 1) div 2)) \<le> key (xs ! j)"
    and "0 < i \<longrightarrow> key (xs ! ((i - 1) div 2)) \<le> key t"
    and "\<forall>j. 0 < j \<and> j < n \<and> (j - 1) div 2 = i \<and> 0 < i \<longrightarrow> key (xs ! ((i - 1) div 2)) \<le> key (xs ! j)"
  shows "heap_on key (sift_down key n t xs i) n"
  using assms
proof (induction key n t xs i rule: sift_down.induct)
  case (1 key n t xs i)
  note A = "1.prems"(3) and B = "1.prems"(4) and C = "1.prems"(5)
  let ?s = "min_child key n xs i"
  show ?case
  proof (cases "n \<le> 2 * i + 1")
    case True
    then have eq: "sift_down key n t xs i = xs[i := t]"
      by (subst sift_down.simps) simp
    show ?thesis
      unfolding eq heap_on_iff
    proof (intro allI impI)
      fix j assume j: "0 < j \<and> j < n"
      have pj: "(j - 1) div 2 < j" using j by arith
      have "(j - 1) div 2 \<noteq> i" using True j by arith
      then show "key (xs[i := t] ! ((j - 1) div 2)) \<le> key (xs[i := t] ! j)"
        using j pj A [rule_format, of j] B "1.prems"(1,2)
        by (auto simp: nth_list_update)
    qed
  next
    case False
    then have sn: "?s < n" by (rule min_child_less)
    have si: "i < ?s" by (rule min_child_gt)
    have ps: "(?s - 1) div 2 = i" by (rule min_child_parent)
    show ?thesis
    proof (cases "key t \<le> key (xs ! ?s)")
      case True
      then have eq: "sift_down key n t xs i = xs[i := t]"
        using False by (subst sift_down.simps) simp
      show ?thesis
        unfolding eq heap_on_iff
      proof (intro allI impI)
        fix j assume j: "0 < j \<and> j < n"
        have pj: "(j - 1) div 2 < j" using j by arith
        show "key (xs[i := t] ! ((j - 1) div 2)) \<le> key (xs[i := t] ! j)"
        proof (cases "(j - 1) div 2 = i")
          case True
          then have "key (xs ! ?s) \<le> key (xs ! j)" using min_child_least j by blast
          then show ?thesis
            using True \<open>key t \<le> key (xs ! ?s)\<close> pj "1.prems"(1,2) by (simp add: nth_list_update)
        next
          case False
          then show ?thesis
            using j pj A [rule_format, of j] B "1.prems"(1,2)
            by (auto simp: nth_list_update)
        qed
      qed
    next
      case nle: False
      then have lt: "key (xs ! ?s) < key t" by simp
      have eq: "sift_down key n t xs i = sift_down key n t (xs[i := xs ! ?s]) ?s"
        using False nle by (subst sift_down.simps) simp
      show ?thesis
        unfolding eq
      proof (rule "1.IH" [OF False nle])
        show "?s < n" by fact
        show "n \<le> length (xs[i := xs ! ?s])" using "1.prems"(2) by simp
        show "\<forall>j. 0 < j \<and> j < n \<and> j \<noteq> ?s \<and> (j - 1) div 2 \<noteq> ?s \<longrightarrow>
                key (xs[i := xs ! ?s] ! ((j - 1) div 2)) \<le> key (xs[i := xs ! ?s] ! j)"
        proof (intro allI impI)
          fix j assume j: "0 < j \<and> j < n \<and> j \<noteq> ?s \<and> (j - 1) div 2 \<noteq> ?s"
          have pj: "(j - 1) div 2 < j" using j by arith
          show "key (xs[i := xs ! ?s] ! ((j - 1) div 2)) \<le> key (xs[i := xs ! ?s] ! j)"
          proof (cases "(j - 1) div 2 = i")
            case True
            then have "key (xs ! ?s) \<le> key (xs ! j)" using min_child_least j by blast
            then show ?thesis
              using True pj "1.prems"(1,2) by (simp add: nth_list_update)
          next
            case False
            then show ?thesis
              using j pj A [rule_format, of j] C [rule_format, of ?s] sn si ps "1.prems"(1,2)
              by (auto simp: nth_list_update)
          qed
        qed
        show "0 < ?s \<longrightarrow> key (xs[i := xs ! ?s] ! ((?s - 1) div 2)) \<le> key t"
          using ps lt "1.prems"(1,2) by (simp add: less_imp_le)
        show "\<forall>j. 0 < j \<and> j < n \<and> (j - 1) div 2 = ?s \<and> 0 < ?s \<longrightarrow>
                key (xs[i := xs ! ?s] ! ((?s - 1) div 2)) \<le> key (xs[i := xs ! ?s] ! j)"
        proof (intro allI impI)
          fix j assume j: "0 < j \<and> j < n \<and> (j - 1) div 2 = ?s \<and> 0 < ?s"
          have "?s < j" using j by arith
          then have ji: "j \<noteq> i" "(j - 1) div 2 \<noteq> i" using si j by auto
          then have "key (xs ! ?s) \<le> key (xs ! j)"
            using A [rule_format, of j] j by simp
          then show "key (xs[i := xs ! ?s] ! ((?s - 1) div 2)) \<le> key (xs[i := xs ! ?s] ! j)"
            using ps ji "1.prems"(1,2) by simp
        qed
      qed
    qed
  qed
qed

lemma heap_root_min:
  assumes "heap_on key xs n" "j < n"
  shows "key (xs ! 0) \<le> key (xs ! j)"
  using assms(2)
proof (induction j rule: less_induct)
  case (less j)
  show ?case
  proof (cases "j = 0")
    case True
    then show ?thesis by simp
  next
    case False
    then have "(j - 1) div 2 < j" by arith
    moreover have "key (xs ! ((j - 1) div 2)) \<le> key (xs ! j)"
      using assms(1) False less.prems by (simp add: heap_on_iff)
    ultimately show ?thesis
      using less.IH [of "(j - 1) div 2"] less.prems by auto
  qed
qed

lemma mset_move_hole:
  assumes "i < length xs" "p < length xs" "p \<noteq> i"
  shows "mset (xs[i := xs ! p, p := v]) = mset (xs[i := v])"
  using assms by (simp add: mset_update nth_list_update)

lemma mset_sift_up: "i < length xs \<Longrightarrow> mset (sift_up key xs v i) = mset (xs[i := v])"
proof (induction key xs v i rule: sift_up.induct)
  case (1 key xs v i)
  show ?case
  proof (cases "i = 0 \<or> key (xs ! ((i - 1) div 2)) \<le> key v")
    case True
    then show ?thesis by (subst sift_up.simps) auto
  next
    case False
    then have "(i - 1) div 2 < i" by arith
    then show ?thesis
      using False "1.IH" "1.prems" mset_move_hole [of i xs "(i - 1) div 2" v]
      by (subst sift_up.simps) auto
  qed
qed

lemma mset_sift_down:
  "i < length xs \<Longrightarrow> n \<le> length xs \<Longrightarrow> mset (sift_down key n t xs i) = mset (xs[i := t])"
proof (induction key n t xs i rule: sift_down.induct)
  case (1 key n t xs i)
  let ?s = "min_child key n xs i"
  show ?case
  proof (cases "n \<le> 2 * i + 1 \<or> key t \<le> key (xs ! ?s)")
    case True
    then show ?thesis by (subst sift_down.simps) auto
  next
    case False
    then have sn: "?s < n" "?s \<noteq> i"
      using min_child_less [of n i key xs] min_child_gt [of i key n xs] by auto
    have "sift_down key n t xs i = sift_down key n t (xs[i := xs ! ?s]) ?s"
      using False by (subst sift_down.simps) simp
    moreover have "mset (sift_down key n t (xs[i := xs ! ?s]) ?s) = mset (xs[i := xs ! ?s, ?s := t])"
      using False sn "1.prems" by (intro "1.IH") auto
    ultimately show ?thesis
      using mset_move_hole [of i xs ?s t] sn "1.prems" by simp
  qed
qed

lemma take_sift_up: "i < m \<Longrightarrow> take m (sift_up key xs v i) = sift_up key (take m xs) v i"
proof (induction key xs v i rule: sift_up.induct)
  case (1 key xs v i)
  show ?case
  proof (cases "i = 0")
    case True
    then show ?thesis
      by (subst sift_up.simps, subst (2) sift_up.simps) (simp add: take_update_swap)
  next
    case False
    then have "(i - 1) div 2 < i" by arith
    then show ?thesis
      using False "1.IH" "1.prems"
      by (subst sift_up.simps, subst (2) sift_up.simps) (auto simp: take_update_swap)
  qed
qed

lemma min_child_take: "n \<le> m \<Longrightarrow> min_child key n (take m xs) i = min_child key n xs i"
  by (auto simp: min_child_def)

lemma take_sift_down:
  "n \<le> m \<Longrightarrow> take m (sift_down key n t xs i) = sift_down key n t (take m xs) i"
proof (induction key n t xs i rule: sift_down.induct)
  case (1 key n t xs i)
  let ?s = "min_child key n xs i"
  show ?case
  proof (cases "n \<le> 2 * i + 1")
    case True
    then show ?thesis
      by (subst sift_down.simps, subst (2) sift_down.simps) (simp add: take_update_swap)
  next
    case False
    then have sn: "?s < n" by (rule min_child_less)
    then have nth: "take m xs ! ?s = xs ! ?s"
      using "1.prems" by simp
    show ?thesis
    proof (cases "key t \<le> key (xs ! ?s)")
      case True
      then show ?thesis
        using False "1.prems" nth
        by (subst sift_down.simps, subst (2) sift_down.simps)
           (simp add: min_child_take take_update_swap)
    next
      case nle: False
      have "take m (sift_down key n t (xs[i := xs ! ?s]) ?s)
              = sift_down key n t (take m (xs[i := xs ! ?s])) ?s"
        using False nle "1.prems" by (intro "1.IH") auto
      then show ?thesis
        using False nle "1.prems" nth
        by (subst sift_down.simps, subst (2) sift_down.simps)
           (simp add: min_child_take take_update_swap)
    qed
  qed
qed

lemma sift_up_hole: "sift_up key (xs[i := a]) v i = sift_up key xs v i"
proof (cases "i = 0")
  case True
  then show ?thesis by (subst sift_up.simps, subst (2) sift_up.simps) simp
next
  case False
  then have "(i - 1) div 2 \<noteq> i" by arith
  then show ?thesis
    using False by (subst sift_up.simps, subst (2) sift_up.simps) simp
qed

section \<open>The loops of the event queue compute the list algorithm\<close>

text \<open>
  Facts about \<open>unat\<close> that say when the index arithmetic of the loops does not wrap.
\<close>

lemma unat_left_child:
  "unat index < 2 ^ 31 \<Longrightarrow> unat (push_bit 1 index + 1 :: 32 word) = 2 * unat index + 1"
  by (simp add: push_bit_eq_mult unat_word_ariths)

lemma unat_succ: "unat s < 2 ^ 32 - 1 \<Longrightarrow> unat (s + 1 :: 32 word) = unat s + 1"
  by (simp add: unat_word_ariths)

lemma unat_double: "unat c < 2 ^ 31 \<Longrightarrow> unat (c * 2 :: 32 word) = 2 * unat c"
  by (simp add: unat_word_ariths)

lemma unat_pred: "c \<noteq> 0 \<Longrightarrow> unat (c - 1 :: 32 word) = unat c - 1"
  by (rule unat_minus_one)

lemma unat_lt32: "unat (c :: 32 word) < 2 ^ 32"
  using unsigned_less [of c] by simp


lemma rd_in: "unat i < length d \<Longrightarrow> rd d i = Inr (d ! unat i)"
  by (simp add: rd_def)

lemma wr_in: "unat i < length d \<Longrightarrow> wr d i v = Inr (d[unat i := v])"
  by (simp add: wr_def)

lemma wr_Inr: "wr d i v = Inr d' \<Longrightarrow> unat i < length d \<and> d' = d[unat i := v]"
  by (simp add: wr_def split: if_splits)

lemma event_queue_push_loop_sift_up:
  "unat index < length d \<Longrightarrow>
   \<exists>d' j. event_queue_push_loop d v index = Inr (d', j) \<and> unat j < length d' \<and>
          d'[unat j := v] = sift_up when d v (unat index)"
proof (induction d v index rule: event_queue_push_loop.induct)
  case (1 d v index)
  let ?parent = "drop_bit 1 (index - 1)"
  show ?case
  proof (cases "index = 0")
    case True
    then show ?thesis
      using "1.prems"
      by (subst sift_up.simps, subst event_queue_push_loop.simps) simp
  next
    case False
    have up: "unat ?parent = (unat index - 1) div 2"
      using False by (rule unat_parent)
    have i0: "unat index \<noteq> 0"
      using False by (simp add: unat_eq_0)
    then have lt: "unat ?parent < unat index"
      using up by arith
    then have rdp: "rd d ?parent = Inr (d ! unat ?parent)"
      using "1.prems" by (simp add: rd_in)
    show ?thesis
    proof (cases "EVENT_CMP (d ! unat ?parent) v")
      case True
      then have "event_queue_push_loop d v index = Inr (d, index)"
        using False rdp
        by (subst event_queue_push_loop.simps) (simp add: Let_def)
      moreover have "sift_up when d v (unat index) = d[unat index := v]"
        using True i0 up by (subst sift_up.simps) (simp add: EVENT_CMP_def)
      ultimately show ?thesis
        using "1.prems" by simp
    next
      case nle: False
      let ?d = "d[unat index := d ! unat ?parent]"
      have wri: "wr d index (d ! unat ?parent) = Inr ?d"
        using "1.prems" by (simp add: wr_in)
      have "unat ?parent < length ?d"
        using lt "1.prems" by simp
      with False rdp nle wri
      have "\<exists>d' j. event_queue_push_loop ?d v ?parent = Inr (d', j) \<and> unat j < length d' \<and>
               d'[unat j := v] = sift_up when ?d v (unat ?parent)"
        by (rule "1.IH" [OF _ refl])
      moreover have "event_queue_push_loop d v index = event_queue_push_loop ?d v ?parent"
        using False rdp nle wri by (subst event_queue_push_loop.simps) (simp add: Let_def)
      moreover have "sift_up when d v (unat index) = sift_up when ?d v (unat ?parent)"
        using nle i0 up by (subst sift_up.simps) (simp add: EVENT_CMP_def)
      ultimately show ?thesis
        by simp
    qed
  qed
qed

lemma event_queue_push_loop_in_bounds:
  assumes "event_queue_push_loop d v index = Inr (d', j)" "wr d' j v = Inr d''"
  shows "unat index < length d"
proof (cases "index = 0")
  case True
  then show ?thesis
    using assms by (subst (asm) event_queue_push_loop.simps) (auto dest: wr_Inr)
next
  case False
  then show ?thesis
    using assms
    by (subst (asm) event_queue_push_loop.simps)
       (auto simp: Let_def split: sum.splits if_splits dest: wr_Inr)
qed


lemma event_queue_pop_child_min:
  assumes "unat swap = 2 * i + 1" "2 * i + 1 < unat n" "unat n \<le> length d"
  shows "\<exists>sw. event_queue_pop_child n d swap = Inr sw \<and> unat sw = min_child when (unat n) d i"
proof -
  have "unat swap < 2 ^ 32 - 1"
    using assms(1,2) unat_lt32 [of n] by simp
  then have o: "unat (swap + 1) = 2 * i + 2"
    using assms(1) by (simp add: unat_succ)
  show ?thesis
  proof (cases "2 * i + 2 < unat n")
    case True
    then have "rd d (swap + 1) = Inr (d ! (2 * i + 2))" "rd d swap = Inr (d ! (2 * i + 1))"
      using assms o by (simp_all add: rd_def)
    then show ?thesis
      using True o assms
      by (simp add: event_queue_pop_child_def Let_def word_less_nat_alt min_child_def EVENT_CMP_def)
  next
    case False
    then show ?thesis
      using o assms
      by (simp add: event_queue_pop_child_def Let_def word_less_nat_alt min_child_def)
  qed
qed

lemma event_queue_pop_loop_sift_down:
  assumes "unat n < length d" "unat n \<le> 2 ^ 31" "unat index < unat n \<or> index = 0"
  shows "\<exists>d' j. event_queue_pop_loop n d index = Some (Inr (d', j)) \<and> unat j < length d' \<and>
           length d' = length d \<and> d' ! unat n = d ! unat n \<and>
           d'[unat j := d ! unat n] = sift_down when (unat n) (d ! unat n) d (unat index)"
  using assms
proof (induction "unat n - unat index" arbitrary: d index rule: less_induct)
  case less
  let ?swap = "push_bit 1 index + 1 :: 32 word"
  let ?i = "unat index" and ?n = "unat n"
  let ?t = "d ! ?n"
  have "?i < 2 ^ 31"
    using less.prems by auto
  then have sw: "unat ?swap = 2 * ?i + 1"
    by (rule unat_left_child)
  have il: "?i < length d"
    using less.prems by auto
  show ?case
  proof (cases "?n \<le> 2 * ?i + 1")
    case True
    then have "n \<le> ?swap"
      using sw by (simp add: word_le_nat_alt)
    then have "event_queue_pop_loop n d index = Some (Inr (d, index))"
      by (subst event_queue_pop_loop.simps) (simp add: Let_def)
    moreover have "sift_down when ?n ?t d ?i = d[?i := ?t]"
      using True by (subst sift_down.simps) simp
    ultimately show ?thesis
      using il by simp
  next
    case False
    then have nsw: "\<not> n \<le> ?swap"
      using sw by (simp add: word_le_nat_alt)
    let ?s = "min_child when ?n d ?i"
    obtain c where c: "event_queue_pop_child n d ?swap = Inr c" "unat c = ?s"
      using event_queue_pop_child_min [OF sw, of n d] False less.prems by auto
    have sn: "?s < ?n" using False by (rule min_child_less)
    have si: "?i < ?s" by (rule min_child_gt)
    have rdn: "rd d n = Inr ?t"
      using less.prems by (simp add: rd_def)
    have rdc: "rd d c = Inr (d ! ?s)"
      using c sn less.prems by (simp add: rd_def)
    show ?thesis
    proof (cases "when ?t \<le> when (d ! ?s)")
      case True
      then have "event_queue_pop_loop n d index = Some (Inr (d, index))"
        using nsw c rdn rdc
        by (subst event_queue_pop_loop.simps) (simp add: Let_def EVENT_CMP_def)
      moreover have "sift_down when ?n ?t d ?i = d[?i := ?t]"
        using True False by (subst sift_down.simps) simp
      ultimately show ?thesis
        using il by simp
    next
      case nle: False
      let ?d = "d[?i := d ! ?s]"
      have wri: "wr d index (d ! ?s) = Inr ?d"
        using il by (simp add: wr_def)
      have step: "event_queue_pop_loop n d index = event_queue_pop_loop n ?d c"
        using nsw c rdn rdc nle wri
        by (subst event_queue_pop_loop.simps) (simp add: Let_def EVENT_CMP_def)
      have down: "sift_down when ?n ?t d ?i = sift_down when ?n ?t ?d ?s"
        using nle False by (subst sift_down.simps) simp
      have keep: "?d ! ?n = ?t"
        using si sn by simp
      have "\<exists>d' j. event_queue_pop_loop n ?d c = Some (Inr (d', j)) \<and> unat j < length d' \<and>
               length d' = length ?d \<and> d' ! unat n = ?d ! unat n \<and>
               d'[unat j := ?d ! unat n] = sift_down when (unat n) (?d ! unat n) ?d (unat c)"
      proof (rule less.hyps)
        show "unat n - unat c < unat n - unat index"
          using c si sn by simp
        show "unat n < length ?d" using less.prems by simp
        show "unat n \<le> 2 ^ 31" by fact
        show "unat c < unat n \<or> c = 0" using c sn by simp
      qed
      then show ?thesis
        using step down keep c by simp
    qed
  qed
qed

section \<open>Queue states\<close>

text \<open>
  A queue state is well formed when its block is allocated with exactly \<open>cap\<close> slots and
  \<open>count\<close> does not exceed \<open>cap\<close>. \<open>live h\<close> is the sequence of stored events: the
  first \<open>count\<close> slots. \<open>heap_property\<close> is the heap property of the specification
  over those slots. \<open>heap_push\<close> and \<open>heap_pop\<close> are what a push and a pop do to the
  sequence of stored elements.
\<close>

definition valid_queue :: "event_queue \<Rightarrow> bool" where
  "valid_queue h =
     (case buffer h of
        None \<Rightarrow> False
      | Some d \<Rightarrow> length d = unat (cap h) \<and> count h \<le> cap h)"

definition live :: "event_queue \<Rightarrow> event list" where
  "live h = (case buffer h of None \<Rightarrow> [] | Some d \<Rightarrow> take (unat (count h)) d)"

definition heap_property :: "event_queue \<Rightarrow> bool" where
  "heap_property h =
     (case buffer h of
        None \<Rightarrow> count h = 0
      | Some d \<Rightarrow> unat (count h) \<le> length d \<and> heap_on when d (unat (count h)))"

definition heap_push :: "('a \<Rightarrow> 'k::linorder) \<Rightarrow> 'a list \<Rightarrow> 'a \<Rightarrow> 'a list" where
  "heap_push key ys v = sift_up key (ys @ [v]) v (length ys)"

definition heap_pop :: "('a \<Rightarrow> 'k::linorder) \<Rightarrow> 'a list \<Rightarrow> 'a list" where
  "heap_pop key ys = sift_down key (length ys - 1) (last ys) (butlast ys) 0"

lemma unat_double_grows:
  assumes "unat c < unat (c * 2 :: 32 word)"
  shows "unat (c * 2) = 2 * unat c"
proof (cases "unat c < 2 ^ 31")
  case True
  then show ?thesis by (rule unat_double)
next
  case False
  have c: "unat c < 2 ^ 32" by (rule unat_lt32)
  have "unat (c * 2) = (unat c * 2) mod 2 ^ 32"
    by (simp add: unat_word_ariths)
  also have "\<dots> = unat c * 2 - 2 ^ 32"
    using False c by (simp add: mod_if)
  finally show ?thesis
    using assms c by simp
qed

lemma take_live_push:
  assumes "n < length d"
  shows "take (Suc n) (sift_up key d v n) = heap_push key (take n d) v"
proof -
  have "take (Suc n) (sift_up key d v n) = sift_up key (take (Suc n) d) v n"
    by (simp add: take_sift_up)
  also have "take (Suc n) d = (take n d @ [v])[n := d ! n]"
    using assms list_update_length [of "take n d" v "[]" "d ! n"]
    by (simp add: take_Suc_conv_app_nth)
  finally show ?thesis
    using assms by (simp add: heap_push_def sift_up_hole)
qed

lemma take_live_pop:
  assumes "n < length d"
  shows "take n (sift_down key n (d ! n) d 0) = heap_pop key (take (Suc n) d)"
proof -
  have "take n (sift_down key n (d ! n) d 0) = sift_down key n (d ! n) (take n d) 0"
    by (simp add: take_sift_down)
  moreover have "butlast (take (Suc n) d) = take n d" "last (take (Suc n) d) = d ! n"
    using assms by (simp_all add: take_Suc_conv_app_nth)
  ultimately show ?thesis
    using assms by (simp add: heap_pop_def)
qed

lemma event_queue_push_store:
  assumes "unat index < length d"
  shows "(case event_queue_push_loop d v index of
            Inl (f, d') \<Rightarrow> Inl (f, g\<lparr>buffer := Some d'\<rparr>)
          | Inr (d', index') \<Rightarrow>
              (case wr d' index' v of
                 Inl f \<Rightarrow> Inl (f, g\<lparr>buffer := Some d'\<rparr>)
               | Inr d'' \<Rightarrow> Inr (0::int, g\<lparr>buffer := Some d''\<rparr>)))
         = Inr (0, g\<lparr>buffer := Some (sift_up when d v (unat index))\<rparr>)"
proof -
  obtain d' j where "event_queue_push_loop d v index = Inr (d', j)" "unat j < length d'"
    "d'[unat j := v] = sift_up when d v (unat index)"
    using event_queue_push_loop_sift_up [OF assms] by blast
  then show ?thesis
    by (simp add: wr_def)
qed

lemma event_queue_push_in_bounds:
  assumes "(case event_queue_push_loop d v index of
            Inl (f, d') \<Rightarrow> Inl (f, g\<lparr>buffer := Some d'\<rparr>)
          | Inr (d', index') \<Rightarrow>
              (case wr d' index' v of
                 Inl f \<Rightarrow> Inl (f, g\<lparr>buffer := Some d'\<rparr>)
               | Inr d'' \<Rightarrow> Inr (0::int, g\<lparr>buffer := Some d''\<rparr>))) = Inr (r, h')"
  shows "unat index < length d"
  using assms event_queue_push_loop_in_bounds [of d v index]
  by (auto split: sum.splits prod.splits)

lemma event_queue_push_success:
  assumes "valid_queue h" "event_queue_push a h v = Inr (0, h')"
  shows "valid_queue h' \<and> count h' = count h + 1 \<and> unat (count h') = unat (count h) + 1 \<and>
         live h' = heap_push when (live h) v \<and>
         (if count h = cap h then cap h' = cap h * 2 \<and> unat (cap h') = 2 * unat (cap h)
          else cap h' = cap h)"
proof -
  obtain d where d: "buffer h = Some d" "length d = unat (cap h)" "count h \<le> cap h"
    using assms(1) by (auto simp: valid_queue_def split: option.splits)
  show ?thesis
  proof (cases "count h = cap h")
    case False
    then have lt: "unat (count h) < length d"
      using d by (simp add: word_le_nat_alt word_unat_eq_iff)
    then have "unat (count h) < 2 ^ 32 - 1"
      using d unat_lt32 [of "cap h"] by simp
    then have su: "unat (count h + 1) = unat (count h) + 1"
      by (rule unat_succ)
    have "event_queue_push a h v
            = Inr (0, h\<lparr>count := count h + 1, buffer := Some (sift_up when d v (unat (count h)))\<rparr>)"
      using False d event_queue_push_store [where g = "h\<lparr>count := count h + 1\<rparr>" and v = v, OF lt]
      by (simp add: event_queue_push_def Let_def)
    then have h': "h' = h\<lparr>count := count h + 1, buffer := Some (sift_up when d v (unat (count h)))\<rparr>"
      using assms(2) by simp
    show ?thesis
      using False d lt su take_live_push [OF lt, of "when" v]
      by (simp add: h' valid_queue_def live_def word_le_nat_alt)
  next
    case True
    obtain junk where a: "a = Alloc_gives junk"
      using assms(2) True d
      by (cases a) (auto simp: event_queue_push_def Let_def realloc_def)
    let ?m = "unat (cap h * 2)"
    let ?d = "take ?m d @ map junk [length d..<?m]"
    let ?g = "h\<lparr>cap := cap h * 2, buffer := Some ?d, count := count h + 1\<rparr>"
    have len: "length ?d = ?m"
      by simp
    have unfolded: "event_queue_push a h v =
        (case event_queue_push_loop ?d v (count h) of
            Inl (f, d') \<Rightarrow> Inl (f, ?g\<lparr>buffer := Some d'\<rparr>)
          | Inr (d', index') \<Rightarrow>
              (case wr d' index' v of
                 Inl f \<Rightarrow> Inl (f, ?g\<lparr>buffer := Some d'\<rparr>)
               | Inr d'' \<Rightarrow> Inr (0::int, ?g\<lparr>buffer := Some d''\<rparr>)))"
      using True d a
      by (simp add: event_queue_push_def Let_def realloc_def cong: sum.case_cong prod.case_cong)
    have lt: "unat (count h) < length ?d"
      using assms(2) unfolding unfolded by (rule event_queue_push_in_bounds)
    then have "unat (cap h) < unat (cap h * 2)"
      using True len by simp
    then have dbl: "?m = 2 * unat (cap h)"
      by (rule unat_double_grows)
    have pos: "0 < unat (cap h)"
      using \<open>unat (cap h) < unat (cap h * 2)\<close> dbl by simp
    have "unat (count h) < 2 ^ 32 - 1"
      using lt len unat_lt32 [of "cap h * 2"] by simp
    then have su: "unat (count h + 1) = unat (count h) + 1"
      by (rule unat_succ)
    have "event_queue_push a h v
            = Inr (0, ?g\<lparr>buffer := Some (sift_up when ?d v (unat (count h)))\<rparr>)"
      unfolding unfolded using lt by (rule event_queue_push_store)
    then have h': "h' = ?g\<lparr>buffer := Some (sift_up when ?d v (unat (count h)))\<rparr>"
      using assms(2) by simp
    have "take (unat (count h)) ?d = take (unat (count h)) d"
      using True d dbl by simp
    then show ?thesis
      using True d len dbl pos su take_live_push [OF lt, of "when" v]
      by (simp add: h' valid_queue_def live_def word_le_nat_alt)
  qed
qed

lemma event_queue_pop_nonempty:
  assumes "valid_queue h" "count h \<noteq> 0" "unat (count h) \<le> 2 ^ 31 + 1"
  shows "\<exists>h'. event_queue_pop h = Some (Inr (hd (live h), h')) \<and> valid_queue h' \<and>
           count h' = count h - 1 \<and> unat (count h') = unat (count h) - 1 \<and>
           cap h' = cap h \<and> live h' = heap_pop when (live h)"
proof -
  obtain d where d: "buffer h = Some d" "length d = unat (cap h)" "count h \<le> cap h"
    using assms(1) by (auto simp: valid_queue_def split: option.splits)
  let ?n = "count h - 1"
  have c0: "0 < unat (count h)"
    using assms(2) by (simp add: unat_gt_0)
  have un: "unat ?n = unat (count h) - 1"
    using assms(2) by (rule unat_pred)
  have cl: "unat (count h) \<le> length d"
    using d by (simp add: word_le_nat_alt)
  have nl: "unat ?n < length d"
    using un c0 cl by simp
  have n31: "unat ?n \<le> 2 ^ 31"
    using un assms(3) by simp
  let ?t = "d ! unat ?n"
  obtain d' j where loop: "event_queue_pop_loop ?n d 0 = Some (Inr (d', j))" "unat j < length d'"
    "length d' = length d" "d' ! unat ?n = ?t"
    "d'[unat j := ?t] = sift_down when (unat ?n) ?t d (unat (0 :: 32 word))"
    using event_queue_pop_loop_sift_down [OF nl n31, of 0] by auto
  let ?h = "h\<lparr>count := ?n, buffer := Some (sift_down when (unat ?n) ?t d 0)\<rparr>"
  have "event_queue_pop h = Some (Inr (d ! 0, ?h))"
    using d loop nl c0 cl by (simp add: event_queue_pop_def Let_def rd_def wr_def)
  moreover have "hd (live h) = d ! 0"
    using d c0 cl by (cases d) (auto simp: live_def take_Cons')
  moreover have "live ?h = heap_pop when (live h)"
    using d un c0 take_live_pop [OF nl, of "when"] by (simp add: live_def)
  moreover have "valid_queue ?h"
    using d un by (simp add: valid_queue_def word_le_nat_alt)
  ultimately show ?thesis
    using un by auto
qed

section \<open>Heap order and contents under push and pop\<close>

lemma heap_on_take: "heap_on key (take n d) n = heap_on key d n"
proof -
  have "(j - 1) div 2 < n" if "j < n" for j
    using that by arith
  then show ?thesis
    by (auto simp: heap_on_iff)
qed

lemma heap_property_live:
  "valid_queue h \<Longrightarrow> heap_property h = heap_on when (live h) (length (live h))"
  by (auto simp: valid_queue_def heap_property_def live_def word_le_nat_alt heap_on_take
      split: option.splits)

lemma length_live: "valid_queue h \<Longrightarrow> length (live h) = unat (count h)"
  by (auto simp: valid_queue_def live_def word_le_nat_alt split: option.splits)

lemma length_heap_push [simp]: "length (heap_push key ys v) = Suc (length ys)"
  by (simp add: heap_push_def)

lemma length_heap_pop [simp]: "length (heap_pop key ys) = length ys - 1"
  by (simp add: heap_pop_def)

lemma mset_heap_push: "mset (heap_push key ys v) = add_mset v (mset ys)"
  by (simp add: heap_push_def mset_sift_up)

lemma mset_heap_pop:
  assumes "ys \<noteq> []"
  shows "add_mset (hd ys) (mset (heap_pop key ys)) = mset ys"
proof (cases "length ys = 1")
  case True
  then obtain y where "ys = [y]"
    by (cases ys) auto
  then show ?thesis
    by (subst heap_pop_def, subst sift_down.simps) simp
next
  case False
  then have len: "0 < length (butlast ys)"
    using assms by (cases ys) auto
  then have "mset (heap_pop key ys) = mset ((butlast ys)[0 := last ys])"
    by (simp add: heap_pop_def mset_sift_down)
  also have "\<dots> = add_mset (last ys) (mset (butlast ys) - {#butlast ys ! 0#})"
    using len by (simp add: mset_update)
  finally have "add_mset (hd ys) (mset (heap_pop key ys))
                  = add_mset (hd ys) (add_mset (last ys) (mset (butlast ys) - {#butlast ys ! 0#}))"
    by simp
  moreover have "butlast ys ! 0 = hd ys"
    using len by (cases ys) auto
  moreover have "hd ys \<in># mset (butlast ys)"
    using len by (cases ys) auto
  moreover have "mset ys = add_mset (last ys) (mset (butlast ys))"
    using assms by (metis append_butlast_last_id mset.simps(2) mset_append union_mset_add_mset_right add.right_neutral mset.simps(1))
  ultimately show ?thesis
    by simp
qed

lemma heap_push_heap:
  assumes "heap_on key ys (length ys)"
  shows "heap_on key (heap_push key ys v) (Suc (length ys))"
  unfolding heap_push_def
proof (rule sift_up_heap)
  let ?n = "length ys"
  show "?n < Suc ?n" by simp
  show "Suc ?n \<le> length (ys @ [v])" by simp
  show "\<forall>j. 0 < j \<and> j < Suc ?n \<and> j \<noteq> ?n \<and> (j - 1) div 2 \<noteq> ?n \<longrightarrow>
          key ((ys @ [v]) ! ((j - 1) div 2)) \<le> key ((ys @ [v]) ! j)"
  proof (intro allI impI)
    fix j assume j: "0 < j \<and> j < Suc ?n \<and> j \<noteq> ?n \<and> (j - 1) div 2 \<noteq> ?n"
    then have "j < ?n" "(j - 1) div 2 < ?n" by arith+
    then show "key ((ys @ [v]) ! ((j - 1) div 2)) \<le> key ((ys @ [v]) ! j)"
      using assms j by (simp add: heap_on_iff nth_append)
  qed
  show "\<forall>j. 0 < j \<and> j < Suc ?n \<and> (j - 1) div 2 = ?n \<longrightarrow> key v \<le> key ((ys @ [v]) ! j)"
    by (intro allI impI) arith
  show "\<forall>j. 0 < j \<and> j < Suc ?n \<and> (j - 1) div 2 = ?n \<and> 0 < ?n \<longrightarrow>
          key ((ys @ [v]) ! ((?n - 1) div 2)) \<le> key ((ys @ [v]) ! j)"
    by (intro allI impI) arith
qed

lemma heap_pop_heap:
  assumes "heap_on key ys (length ys)"
  shows "heap_on key (heap_pop key ys) (length ys - 1)"
proof (cases "length ys \<le> 1")
  case True
  then show ?thesis
    by (simp add: heap_on_def)
next
  case False
  let ?n = "length ys - 1"
  show ?thesis
    unfolding heap_pop_def
  proof (rule sift_down_heap)
    show "0 < ?n" using False by simp
    show "?n \<le> length (butlast ys)" by simp
    show "\<forall>j. 0 < j \<and> j < ?n \<and> j \<noteq> 0 \<and> (j - 1) div 2 \<noteq> 0 \<longrightarrow>
            key (butlast ys ! ((j - 1) div 2)) \<le> key (butlast ys ! j)"
    proof (intro allI impI)
      fix j assume j: "0 < j \<and> j < ?n \<and> j \<noteq> 0 \<and> (j - 1) div 2 \<noteq> 0"
      then have "j < length ys" "(j - 1) div 2 < ?n" by arith+
      then show "key (butlast ys ! ((j - 1) div 2)) \<le> key (butlast ys ! j)"
        using assms j by (simp add: heap_on_iff nth_butlast)
    qed
    show "0 < (0::nat) \<longrightarrow> key (butlast ys ! ((0 - 1) div 2)) \<le> key (last ys)"
      by simp
    show "\<forall>j. 0 < j \<and> j < ?n \<and> (j - 1) div 2 = 0 \<and> 0 < (0::nat) \<longrightarrow>
            key (butlast ys ! ((0 - 1) div 2)) \<le> key (butlast ys ! j)"
      by simp
  qed
qed

lemma heap_hd_min:
  assumes "heap_on key ys (length ys)" "x \<in> set ys"
  shows "key (hd ys) \<le> key x"
proof -
  obtain j where "j < length ys" "x = ys ! j"
    using assms(2) by (auto simp: in_set_conv_nth)
  moreover have "hd ys = ys ! 0"
    using assms(2) by (cases ys) auto
  ultimately show ?thesis
    using heap_root_min [OF assms(1), of j] by simp
qed

section \<open>Examples\<close>

text \<open>
  Events and queue states on which the theorems below are instantiated, and the
  equations that evaluate the operations on them.
\<close>

definition ev :: "nat \<Rightarrow> nat \<Rightarrow> event" where
  "ev w p = \<lparr>when = of_nat w, occur = 0, data = p\<rparr>"

definition junk0 :: "nat \<Rightarrow> event" where
  "junk0 i = ev 0 0"

definition q3 :: event_queue where
  "q3 = \<lparr>count = 3, cap = 4, buffer = Some [ev 2 2, ev 5 1, ev 8 3, ev 0 0]\<rparr>"

lemmas eval_simps =
  ev_def junk0_def valid_queue_def heap_property_def live_def heap_on_def
  event_queue_init_def malloc_def realloc_def
  event_queue_push_def event_queue_push_loop.simps
  event_queue_pop_def event_queue_pop_loop.simps event_queue_pop_child_def
  rd_def wr_def EVENT_CMP_def Let_def
  word_le_nat_alt word_less_nat_alt unsigned_minus_1_eq_mask mask_eq_exp_minus_1 upt_rec

section \<open>The heap invariant\<close>

lemma event_queue_push_heap_property:
  assumes "valid_queue h" "heap_property h" "event_queue_push a h v = Inr (0, h')"
  shows "heap_property h'"
proof -
  have "valid_queue h'" "live h' = heap_push when (live h) v"
    using event_queue_push_success [OF assms(1,3)] by simp_all
  then show ?thesis
    using assms(1,2) heap_push_heap [of "when" "live h" v]
    by (simp add: heap_property_live)
qed



section \<open>Extraction returns a minimum\<close>



section \<open>Growth\<close>

text \<open>
  C1. When the queue is full and \<^verbatim>\<open>realloc\<close> fails, \<^verbatim>\<open>event_queue_push\<close> returns 1,
  but the queue is not what it was: the capacity has been doubled and the pointer to the
  block has been overwritten with \<^verbatim>\<open>NULL\<close>, so the stored events cannot be reached any
  more. Only \<open>count\<close> is unchanged.
\<close>

theorem event_queue_push_alloc_failure:
  "count h = cap h \<Longrightarrow>
   event_queue_push Alloc_fails h v = Inr (1, h\<lparr>cap := cap h * 2, buffer := None\<rparr>)"
  by (simp add: event_queue_push_def realloc_def Let_def)

theorem event_queue_push_alloc_failure_witness:
  "event_queue_push Alloc_fails \<lparr>count = 1, cap = 1, buffer = Some [ev 5 1]\<rparr> (ev 8 3)
     = Inr (1, \<lparr>count = 1, cap = 2, buffer = None\<rparr>)"
  using event_queue_push_alloc_failure [of "\<lparr>count = 1, cap = 1, buffer = Some [ev 5 1]\<rparr>" "ev 8 3"]
  by simp

text \<open>
  C8. A queue of capacity 0 never grows: \<open>0 * 2 = 0\<close>. With \<open>count = cap = 0\<close> the push
  asks \<^verbatim>\<open>realloc\<close> for zero slots; if that returns a block, the store of line 50 goes
  to slot 0 of a block that has no slot, and if it returns \<^verbatim>\<open>NULL\<close> the push
  returns 1. No push into such a queue returns 0.
\<close>

theorem event_queue_push_capacity_zero:
  "valid_queue h \<Longrightarrow> cap h = 0 \<Longrightarrow>
   event_queue_push (Alloc_gives junk) h v
     = Inl (Out_of_bounds, h\<lparr>cap := 0, buffer := Some [], count := 1\<rparr>) \<and>
   event_queue_push Alloc_fails h v = Inr (1, h\<lparr>cap := 0, buffer := None\<rparr>)"
  by (auto simp: valid_queue_def event_queue_push_def realloc_def Let_def wr_def
      event_queue_push_loop.simps split: option.splits)

theorem event_queue_push_capacity_zero_witness:
  "event_queue_init (Alloc_gives junk0) 0 = (0, \<lparr>count = 0, cap = 0, buffer = Some []\<rparr>) \<and>
   event_queue_push (Alloc_gives junk0) \<lparr>count = 0, cap = 0, buffer = Some []\<rparr> (ev 5 1)
     = Inl (Out_of_bounds, \<lparr>count = 1, cap = 0, buffer = Some []\<rparr>) \<and>
   event_queue_push Alloc_fails \<lparr>count = 0, cap = 0, buffer = Some []\<rparr> (ev 5 1)
     = Inr (1, \<lparr>count = 0, cap = 0, buffer = None\<rparr>)"
  using event_queue_push_capacity_zero [of "\<lparr>count = 0, cap = 0, buffer = Some []\<rparr>" junk0 "ev 5 1"]
  by (simp add: valid_queue_def event_queue_init_def malloc_def realloc_def)

section \<open>The choice between two children\<close>

text \<open>
  C7. When both children are in the live range, the left child is chosen only when its
  key is strictly smaller than the right child's; on equal keys the right child is
  chosen. This holds in \<^verbatim>\<open>event_queue_pop\<close> and in \<^verbatim>\<open>queue_pop\<close> alike.
\<close>

theorem pop_child_tie_break:
  assumes "unat swap + 1 < unat n" "unat n \<le> length d" "unat n \<le> length ks"
  shows "event_queue_pop_child n d swap
           = Inr (if when (d ! unat swap) < when (d ! (unat swap + 1)) then swap else swap + 1) \<and>
         queue_pop_child n ks swap
           = Inr (if ks ! unat swap <s ks ! (unat swap + 1) then swap else swap + 1)"
proof -
  have "unat swap < 2 ^ 32 - 1"
    using assms(1) unat_lt32 [of n] by simp
  then have o: "unat (swap + 1) = unat swap + 1"
    by (rule unat_succ)
  then have "swap + 1 < n"
    using assms(1) by (simp add: word_less_nat_alt)
  then show ?thesis
    using o assms
    by (auto simp: event_queue_pop_child_def queue_pop_child_def Let_def rd_def
        EVENT_CMP_def CMP_def word_sless_alt word_sle_eq)
qed

theorem pop_child_tie_break_witness:
  "event_queue_pop_child 3 [ev 0 0, ev 5 1, ev 5 2, ev 9 3] 1 = Inr 2 \<and>
   queue_pop_child 3 [0, 5, 5, 9] 1 = Inr 2"
  using pop_child_tie_break [of 1 3 "[ev 0 0, ev 5 1, ev 5 2, ev 9 3]" "[0, 5, 5, 9]"]
  by (simp add: ev_def)

text \<open>
  The claim as written fails: with the two children of the root at the same timestamp 5,
  the pop moves the right child (payload 2) to the root, not the left one (payload 1).
\<close>

theorem left_child_on_tie_counterexample:
  "event_queue_pop \<lparr>count = 4, cap = 4, buffer = Some [ev 0 0, ev 5 1, ev 5 2, ev 9 3]\<rparr>
     = Some (Inr (ev 0 0,
         \<lparr>count = 3, cap = 4, buffer = Some [ev 5 2, ev 5 1, ev 9 3, ev 9 3]\<rparr>)) \<and>
   event_queue_pop_child 3 [ev 0 0, ev 5 1, ev 5 2, ev 9 3] 1 \<noteq> Inr 1"
  by (simp add: eval_simps)

section \<open>Sequences of operations\<close>

text \<open>
  \<open>push_all h vs\<close> pushes the events of \<open>vs\<close> in order, each with its own allocator
  outcome, and is \<open>None\<close> as soon as a push does not return 0. \<open>pop_all k h\<close> calls
  \<^verbatim>\<open>event_queue_pop\<close> \<open>k\<close> times and collects the returned events.
\<close>

fun push_all :: "event_queue \<Rightarrow> (allocator \<times> event) list \<Rightarrow> event_queue option" where
  "push_all h [] = Some h"
| "push_all h ((a, v) # vs) =
     (case event_queue_push a h v of
        Inl _ \<Rightarrow> None
      | Inr (r, h') \<Rightarrow> if r = 0 then push_all h' vs else None)"

fun pop_all :: "nat \<Rightarrow> event_queue \<Rightarrow> (fault \<times> event_queue + event list \<times> event_queue) option" where
  "pop_all 0 h = Some (Inr ([], h))"
| "pop_all (Suc k) h =
     (case event_queue_pop h of
        None \<Rightarrow> None
      | Some (Inl f) \<Rightarrow> Some (Inl f)
      | Some (Inr (e, h')) \<Rightarrow>
          (case pop_all k h' of
             None \<Rightarrow> None
           | Some (Inl f) \<Rightarrow> Some (Inl f)
           | Some (Inr (es, h'')) \<Rightarrow> Some (Inr (e # es, h''))))"

lemma event_queue_init_valid:
  assumes "event_queue_init a c = (0, h)"
  shows "valid_queue h \<and> count h = 0 \<and> cap h = c \<and> live h = [] \<and> heap_property h"
proof -
  obtain junk where "a = Alloc_gives junk"
    using assms by (cases a) (auto simp: event_queue_init_def malloc_def realloc_def)
  then have "h = \<lparr>count = 0, cap = c, buffer = Some (map junk [0..<unat c])\<rparr>"
    using assms by (auto simp: event_queue_init_def malloc_def realloc_def)
  then show ?thesis
    by (simp add: valid_queue_def live_def heap_property_def heap_on_def)
qed

lemma push_all_inv:
  assumes "valid_queue h" "push_all h vs = Some h1"
  shows "valid_queue h1 \<and> unat (count h1) = unat (count h) + length vs \<and>
         mset (live h1) = mset (live h) + mset (map snd vs) \<and>
         (heap_property h \<longrightarrow> heap_property h1)"
  using assms
proof (induction vs arbitrary: h)
  case Nil
  then show ?case by simp
next
  case (Cons av vs)
  obtain a v where av: "av = (a, v)"
    by (cases av)
  obtain h' where push: "event_queue_push a h v = Inr (0, h')" and rest: "push_all h' vs = Some h1"
    using Cons.prems(2) by (auto simp: av split: sum.splits if_splits)
  have h': "valid_queue h'" "unat (count h') = unat (count h) + 1"
    "live h' = heap_push when (live h) v"
    using event_queue_push_success [OF Cons.prems(1) push] by blast+
  have hp: "heap_property h \<longrightarrow> heap_property h'"
    using Cons.prems(1) push by (auto intro: event_queue_push_heap_property)
  show ?case
    using Cons.IH [OF h'(1) rest] h' hp by (simp add: av mset_heap_push)
qed

lemma pop_all_sorted:
  assumes "valid_queue h" "heap_property h" "k \<le> unat (count h)" "unat (count h) \<le> 2 ^ 31 + 1"
  shows "\<exists>es h2. pop_all k h = Some (Inr (es, h2)) \<and> valid_queue h2 \<and> heap_property h2 \<and>
           unat (count h2) = unat (count h) - k \<and> length es = k \<and> sorted (map when es) \<and>
           mset es + mset (live h2) = mset (live h)"
  using assms
proof (induction k arbitrary: h)
  case 0
  then show ?case by simp
next
  case (Suc k)
  have ne: "count h \<noteq> 0"
    using Suc.prems(3) by (auto simp: unat_eq_0)
  obtain h' where h': "event_queue_pop h = Some (Inr (hd (live h), h'))" "valid_queue h'"
    "unat (count h') = unat (count h) - 1" "live h' = heap_pop when (live h)"
    using event_queue_pop_nonempty [OF Suc.prems(1) ne Suc.prems(4)] by blast
  have hp: "heap_property h'"
    using Suc.prems(1,2) h' heap_pop_heap [of "when" "live h"] by (simp add: heap_property_live)
  have nonempty: "live h \<noteq> []"
    using Suc.prems(1,3) length_live [of h] by auto
  then have split: "add_mset (hd (live h)) (mset (live h')) = mset (live h)"
    using h'(4) by (simp add: mset_heap_pop)
  have k': "k \<le> unat (count h')" "unat (count h') \<le> 2 ^ 31 + 1"
    using Suc.prems(3,4) h'(3) by simp_all
  obtain es h2 where rest: "pop_all k h' = Some (Inr (es, h2))" "valid_queue h2" "heap_property h2"
    "unat (count h2) = unat (count h') - k" "length es = k" "sorted (map when es)"
    "mset es + mset (live h2) = mset (live h')"
    using Suc.IH [OF h'(2) hp k'] by blast
  have "when (hd (live h)) \<le> when x" if "x \<in> set es" for x
  proof -
    have "x \<in># mset es + mset (live h2)"
      using that by simp
    then have "x \<in># mset (live h')"
      by (simp only: rest(7))
    then have "x \<in># add_mset (hd (live h)) (mset (live h'))"
      by simp
    then have "x \<in># mset (live h)"
      by (simp only: split)
    then show ?thesis
      using Suc.prems(1,2) heap_hd_min [of "when" "live h" x] by (simp add: heap_property_live)
  qed
  then have "sorted (map when (hd (live h) # es))"
    using rest(6) by auto
  moreover have "mset (hd (live h) # es) + mset (live h2) = mset (live h)"
    using rest(7) split by simp
  ultimately show ?case
    using h' rest by simp
qed



text \<open>
  C2. \<^verbatim>\<open>event_queue_pop\<close> has no test for an empty queue; a non-zero count is left to
  the caller. What does hold: after \<open>N \<le> 2^31 + 1\<close> pushes that return 0 into a
  freshly initialised queue, \<open>N\<close> pops all return, they return the events that were
  pushed, and the count is 0 again.
\<close>

theorem drained_queue_is_empty:
  assumes "event_queue_init a c = (0, h0)" "push_all h0 vs = Some h1" "length vs \<le> 2 ^ 31 + 1"
  shows "\<exists>es h2. pop_all (length vs) h1 = Some (Inr (es, h2)) \<and> count h2 = 0 \<and>
           mset es = mset (map snd vs)"
proof -
  have h0: "valid_queue h0" "count h0 = 0" "heap_property h0" "live h0 = []"
    using event_queue_init_valid [OF assms(1)] by simp_all
  have h1: "valid_queue h1" "unat (count h1) = length vs" "heap_property h1"
    "mset (live h1) = mset (map snd vs)"
    using push_all_inv [OF h0(1) assms(2)] h0 by simp_all
  have le: "length vs \<le> unat (count h1)" "unat (count h1) \<le> 2 ^ 31 + 1"
    using h1(2) assms(3) by simp_all
  obtain es h2 where r: "pop_all (length vs) h1 = Some (Inr (es, h2))" "valid_queue h2"
    "unat (count h2) = unat (count h1) - length vs" "mset es + mset (live h2) = mset (live h1)"
    using pop_all_sorted [OF h1(1,3) le] by blast
  have z: "unat (count h2) = 0"
    using r(3) h1(2) by simp
  then have "live h2 = []"
    using length_live [OF r(2)] by simp
  then have "mset es = mset (map snd vs)"
    using r(4) h1(4) by simp
  then show ?thesis
    using r(1) z by (auto simp: unat_eq_0)
qed

theorem drained_queue_is_empty_witness:
  "event_queue_init (Alloc_gives junk0) 2
     = (0, \<lparr>count = 0, cap = 2, buffer = Some [ev 0 0, ev 0 0]\<rparr>) \<and>
   push_all \<lparr>count = 0, cap = 2, buffer = Some [ev 0 0, ev 0 0]\<rparr>
     [(Alloc_fails, ev 5 1), (Alloc_fails, ev 2 2), (Alloc_gives junk0, ev 8 3)] = Some q3 \<and>
   (\<exists>es h2. pop_all 3 q3 = Some (Inr (es, h2)) \<and> count h2 = 0 \<and>
      mset es = {#ev 5 1, ev 2 2, ev 8 3#})"
proof -
  have i: "event_queue_init (Alloc_gives junk0) 2
     = (0, \<lparr>count = 0, cap = 2, buffer = Some [ev 0 0, ev 0 0]\<rparr>)"
    by (simp add: eval_simps)
  have p: "push_all \<lparr>count = 0, cap = 2, buffer = Some [ev 0 0, ev 0 0]\<rparr>
     [(Alloc_fails, ev 5 1), (Alloc_fails, ev 2 2), (Alloc_gives junk0, ev 8 3)] = Some q3"
    by (simp add: q3_def eval_simps)
  have l: "length [(Alloc_fails, ev 5 1), (Alloc_fails, ev 2 2), (Alloc_gives junk0, ev 8 3)] = 3"
    by simp
  show ?thesis
    using drained_queue_is_empty [OF i p, unfolded l] i p by simp
qed

text \<open>
  The claim as written fails: a pop on an empty queue is not rejected. It reads slot 0,
  stores \<open>2^32 - 1\<close> into \<open>count\<close> and then reads slot \<open>2^32 - 1\<close> through \<^verbatim>\<open>temp\<close>,
  outside the block.
\<close>

theorem pop_on_empty_counterexample:
  "event_queue_pop \<lparr>count = 0, cap = 4, buffer = Some [ev 2 2, ev 5 1, ev 8 3, ev 0 0]\<rparr>
     = Some (Inl (Out_of_bounds,
         \<lparr>count = 4294967295, cap = 4, buffer = Some [ev 2 2, ev 5 1, ev 8 3, ev 0 0]\<rparr>))"
  by (simp add: eval_simps)

section \<open>What a pop does at any size\<close>


lemma word_less_unat: "(a :: 32 word) < b \<Longrightarrow> unat a < unat b"
  by (simp add: word_less_nat_alt)


text \<open>The child that lines 70 and 71 choose, when the left child is below the count.\<close>

lemma event_queue_pop_child_pick:
  assumes "swap < n" "unat n \<le> length d"
  shows "event_queue_pop_child n d swap
           = Inr (if swap + 1 < n \<and> EVENT_CMP (d ! unat (swap + 1)) (d ! unat swap)
                  then swap + 1 else swap)"
proof (cases "swap + 1 < n")
  case True
  then have "unat (swap + 1) < length d" "unat swap < length d"
    using assms word_less_unat [of "swap + 1" n] word_less_unat [of swap n] by simp_all
  then show ?thesis
    using True by (simp add: event_queue_pop_child_def Let_def rd_def)
next
  case False
  then show ?thesis
    by (simp add: event_queue_pop_child_def Let_def)
qed



section \<open>Interleaved operations\<close>

text \<open>
  A run of the queue under a list of operations. A push carries its allocator outcome
  and its event. The run stops at the first push that does not return 0, and at a pop
  requested on an empty queue (which the caller must not make); otherwise it collects
  the events the pops return. \<open>max_count ops n\<close> is the largest number of events the
  queue holds during the operations \<open>ops\<close> when it starts with \<open>n\<close>.
\<close>

datatype 'a op = Push 'a | Pop

datatype ('e, 's) run_result =
  Finished "'e list" 's | Push_failed | Push_fault | Pop_on_empty | Pop_fault | Pop_diverges

fun run_event_queue ::
  "(allocator \<times> event) op list \<Rightarrow> event_queue \<Rightarrow> (event, event_queue) run_result" where
  "run_event_queue [] h = Finished [] h"
| "run_event_queue (Push (a, v) # ops) h =
     (case event_queue_push a h v of
        Inl _ \<Rightarrow> Push_fault
      | Inr (r, h') \<Rightarrow> if r = 0 then run_event_queue ops h' else Push_failed)"
| "run_event_queue (Pop # ops) h =
     (if count h = 0 then Pop_on_empty
      else case event_queue_pop h of
             None \<Rightarrow> Pop_diverges
           | Some (Inl _) \<Rightarrow> Pop_fault
           | Some (Inr (e, h')) \<Rightarrow>
               (case run_event_queue ops h' of
                  Finished es h'' \<Rightarrow> Finished (e # es) h''
                | r \<Rightarrow> r))"










section \<open>The loops of the integer heap compute the list algorithm\<close>

text \<open>\<^verbatim>\<open>CMP\<close> on \<^verbatim>\<open>int\<close> is \<open>\<le>\<close> on the signed values.\<close>

lemma CMP_sint: "CMP a b = (sint a \<le> sint b)"
  by (simp add: CMP_def word_sle_eq)

lemma queue_push_loop_sift_up:
  "unat index < length d \<Longrightarrow>
   \<exists>d' j. queue_push_loop d v index = Inr (d', j) \<and> unat j < length d' \<and>
          d'[unat j := v] = sift_up sint d v (unat index)"
proof (induction d v index rule: queue_push_loop.induct)
  case (1 d v index)
  let ?parent = "drop_bit 1 (index - 1)"
  show ?case
  proof (cases "index = 0")
    case True
    then show ?thesis
      using "1.prems"
      by (subst sift_up.simps, subst queue_push_loop.simps) simp
  next
    case False
    have up: "unat ?parent = (unat index - 1) div 2"
      using False by (rule unat_parent)
    have i0: "unat index \<noteq> 0"
      using False by (simp add: unat_eq_0)
    then have lt: "unat ?parent < unat index"
      using up by arith
    then have rdp: "rd d ?parent = Inr (d ! unat ?parent)"
      using "1.prems" by (simp add: rd_in)
    show ?thesis
    proof (cases "CMP (d ! unat ?parent) v")
      case True
      then have "queue_push_loop d v index = Inr (d, index)"
        using False rdp
        by (subst queue_push_loop.simps) (simp add: Let_def)
      moreover have "sift_up sint d v (unat index) = d[unat index := v]"
        using True i0 up by (subst sift_up.simps) (simp add: CMP_sint)
      ultimately show ?thesis
        using "1.prems" by simp
    next
      case nle: False
      let ?d = "d[unat index := d ! unat ?parent]"
      have wri: "wr d index (d ! unat ?parent) = Inr ?d"
        using "1.prems" by (simp add: wr_in)
      have "unat ?parent < length ?d"
        using lt "1.prems" by simp
      with False rdp nle wri
      have "\<exists>d' j. queue_push_loop ?d v ?parent = Inr (d', j) \<and> unat j < length d' \<and>
               d'[unat j := v] = sift_up sint ?d v (unat ?parent)"
        by (rule "1.IH" [OF _ refl])
      moreover have "queue_push_loop d v index = queue_push_loop ?d v ?parent"
        using False rdp nle wri by (subst queue_push_loop.simps) (simp add: Let_def)
      moreover have "sift_up sint d v (unat index) = sift_up sint ?d v (unat ?parent)"
        using nle i0 up by (subst sift_up.simps) (simp add: CMP_sint)
      ultimately show ?thesis
        by simp
    qed
  qed
qed

lemma queue_pop_child_min:
  assumes "unat swap = 2 * i + 1" "2 * i + 1 < unat n" "unat n \<le> length d"
  shows "\<exists>sw. queue_pop_child n d swap = Inr sw \<and> unat sw = min_child sint (unat n) d i"
proof -
  have "unat swap < 2 ^ 32 - 1"
    using assms(1,2) unat_lt32 [of n] by simp
  then have o: "unat (swap + 1) = 2 * i + 2"
    using assms(1) by (simp add: unat_succ)
  show ?thesis
  proof (cases "2 * i + 2 < unat n")
    case True
    then have "rd d (swap + 1) = Inr (d ! (2 * i + 2))" "rd d swap = Inr (d ! (2 * i + 1))"
      using assms o by (simp_all add: rd_def)
    then show ?thesis
      using True o assms
      by (simp add: queue_pop_child_def Let_def word_less_nat_alt min_child_def CMP_sint)
  next
    case False
    then show ?thesis
      using o assms
      by (simp add: queue_pop_child_def Let_def word_less_nat_alt min_child_def)
  qed
qed

lemma queue_pop_loop_sift_down:
  assumes "unat n < length d" "unat n \<le> 2 ^ 31" "unat index < unat n \<or> index = 0"
  shows "\<exists>d' j. queue_pop_loop n t d index = Some (Inr (d', j)) \<and> unat j < length d' \<and>
           d'[unat j := t] = sift_down sint (unat n) t d (unat index)"
  using assms
proof (induction "unat n - unat index" arbitrary: d index rule: less_induct)
  case less
  let ?swap = "push_bit 1 index + 1 :: 32 word"
  let ?i = "unat index" and ?n = "unat n"
  have "?i < 2 ^ 31"
    using less.prems by auto
  then have sw: "unat ?swap = 2 * ?i + 1"
    by (rule unat_left_child)
  have il: "?i < length d"
    using less.prems by auto
  show ?case
  proof (cases "?n \<le> 2 * ?i + 1")
    case True
    then have "n \<le> ?swap"
      using sw by (simp add: word_le_nat_alt)
    then have "queue_pop_loop n t d index = Some (Inr (d, index))"
      by (subst queue_pop_loop.simps) (simp add: Let_def)
    moreover have "sift_down sint ?n t d ?i = d[?i := t]"
      using True by (subst sift_down.simps) simp
    ultimately show ?thesis
      using il by simp
  next
    case False
    then have nsw: "\<not> n \<le> ?swap"
      using sw by (simp add: word_le_nat_alt)
    let ?s = "min_child sint ?n d ?i"
    obtain c where c: "queue_pop_child n d ?swap = Inr c" "unat c = ?s"
      using queue_pop_child_min [OF sw, of n d] False less.prems by auto
    have sn: "?s < ?n" using False by (rule min_child_less)
    have si: "?i < ?s" by (rule min_child_gt)
    have rdc: "rd d c = Inr (d ! ?s)"
      using c sn less.prems by (simp add: rd_def)
    show ?thesis
    proof (cases "sint t \<le> sint (d ! ?s)")
      case True
      then have "queue_pop_loop n t d index = Some (Inr (d, index))"
        using nsw c rdc
        by (subst queue_pop_loop.simps) (simp add: Let_def CMP_sint)
      moreover have "sift_down sint ?n t d ?i = d[?i := t]"
        using True False by (subst sift_down.simps) simp
      ultimately show ?thesis
        using il by simp
    next
      case nle: False
      let ?d = "d[?i := d ! ?s]"
      have wri: "wr d index (d ! ?s) = Inr ?d"
        using il by (simp add: wr_def)
      have step: "queue_pop_loop n t d index = queue_pop_loop n t ?d c"
        using nsw c rdc nle wri
        by (subst queue_pop_loop.simps) (simp add: Let_def CMP_sint)
      have down: "sift_down sint ?n t d ?i = sift_down sint ?n t ?d ?s"
        using nle False by (subst sift_down.simps) simp
      have "\<exists>d' j. queue_pop_loop n t ?d c = Some (Inr (d', j)) \<and> unat j < length d' \<and>
               d'[unat j := t] = sift_down sint (unat n) t ?d (unat c)"
      proof (rule less.hyps)
        show "unat n - unat c < unat n - unat index"
          using c si sn by simp
        show "unat n < length ?d" using less.prems by simp
        show "unat n \<le> 2 ^ 31" by fact
        show "unat c < unat n \<or> c = 0" using c sn by simp
      qed
      then show ?thesis
        using step down c by simp
    qed
  qed
qed

text \<open>The stored keys of the integer heap: its first \<open>qcount\<close> slots.\<close>

definition qlive :: "queue \<Rightarrow> 32 word list" where
  "qlive h = take (unat (qcount h)) (qdata h)"

lemma queue_push_room:
  assumes "unat (qcount h) < length (qdata h)" "unat (qcount h) < 2 ^ 32 - 1"
  shows "\<exists>h'. queue_push h k = Inr h' \<and> unat (qcount h') = unat (qcount h) + 1 \<and>
           length (qdata h') = length (qdata h) \<and> qlive h' = heap_push sint (qlive h) k"
proof -
  let ?n = "unat (qcount h)"
  obtain d' j where loop: "queue_push_loop (qdata h) k (qcount h) = Inr (d', j)"
    "unat j < length d'" "d'[unat j := k] = sift_up sint (qdata h) k ?n"
    using queue_push_loop_sift_up [OF assms(1)] by blast
  have su: "unat (qcount h + 1) = ?n + 1"
    using assms(2) by (rule unat_succ)
  have "queue_push h k = Inr (h\<lparr>qcount := qcount h + 1, qdata := sift_up sint (qdata h) k ?n\<rparr>)"
    using loop by (simp add: queue_push_def Let_def wr_def)
  then show ?thesis
    using su take_live_push [OF assms(1), of sint k] by (simp add: qlive_def)
qed

lemma queue_pop_nonempty:
  assumes "qcount h \<noteq> 0" "unat (qcount h) \<le> length (qdata h)" "unat (qcount h) \<le> 2 ^ 31 + 1"
  shows "\<exists>h'. queue_pop h = Some (Inr (hd (qlive h), h')) \<and>
           unat (qcount h') = unat (qcount h) - 1 \<and>
           length (qdata h') = length (qdata h) \<and> qlive h' = heap_pop sint (qlive h)"
proof -
  let ?d = "qdata h"
  let ?n = "qcount h - 1"
  have c0: "0 < unat (qcount h)"
    using assms(1) by (simp add: unat_gt_0)
  have un: "unat ?n = unat (qcount h) - 1"
    using assms(1) by (rule unat_pred)
  have nl: "unat ?n < length ?d"
    using un c0 assms(2) by simp
  have n31: "unat ?n \<le> 2 ^ 31"
    using un assms(3) by simp
  let ?t = "?d ! unat ?n"
  obtain d' j where loop: "queue_pop_loop ?n ?t ?d 0 = Some (Inr (d', j))" "unat j < length d'"
    "d'[unat j := ?t] = sift_down sint (unat ?n) ?t ?d (unat (0 :: 32 word))"
    using queue_pop_loop_sift_down [OF nl n31, of 0 ?t] by auto
  let ?h = "h\<lparr>qcount := ?n, qdata := sift_down sint (unat ?n) ?t ?d 0\<rparr>"
  have ne: "0 < length ?d"
    using nl by (cases ?d) simp_all
  have "queue_pop h = Some (Inr (?d ! 0, ?h))"
    using loop nl ne by (simp add: queue_pop_def Let_def rd_def wr_def)
  moreover have "hd (qlive h) = ?d ! 0"
    using c0 assms(2) by (cases ?d) (auto simp: qlive_def take_Cons')
  moreover have "qlive ?h = heap_pop sint (qlive h)"
    using un c0 take_live_pop [OF nl, of sint] by (simp add: qlive_def)
  ultimately show ?thesis
    using un by auto
qed

lemma queue_pop_child_pick:
  assumes "swap < n" "unat n \<le> length d"
  shows "queue_pop_child n d swap
           = Inr (if swap + 1 < n \<and> CMP (d ! unat (swap + 1)) (d ! unat swap)
                  then swap + 1 else swap)"
proof (cases "swap + 1 < n")
  case True
  then have "unat (swap + 1) < length d" "unat swap < length d"
    using assms word_less_unat [of "swap + 1" n] word_less_unat [of swap n] by simp_all
  then show ?thesis
    using True by (simp add: queue_pop_child_def Let_def rd_def)
next
  case False
  then show ?thesis
    by (simp add: queue_pop_child_def Let_def)
qed

section \<open>The same algorithm over related elements\<close>

text \<open>
  Two lists related elementwise by \<open>R\<close>, with keys that compare the same way on related
  elements, stay related under the algorithm: the two runs make the same moves.
\<close>

definition same_order :: "('a \<Rightarrow> 'b \<Rightarrow> bool) \<Rightarrow> ('a \<Rightarrow> 'k::linorder) \<Rightarrow> ('b \<Rightarrow> 'l::linorder) \<Rightarrow> bool" where
  "same_order R key key' =
     (\<forall>a b a' b'. R a b \<and> R a' b' \<longrightarrow> (key a \<le> key a') = (key' b \<le> key' b'))"

lemma same_orderD:
  "same_order R key key' \<Longrightarrow> R a b \<Longrightarrow> R a' b' \<Longrightarrow> (key a \<le> key a') = (key' b \<le> key' b')"
  unfolding same_order_def by blast

lemma sift_up_rel:
  assumes "same_order R key key'" "list_all2 R xs ys" "R v w" "i < length xs"
  shows "list_all2 R (sift_up key xs v i) (sift_up key' ys w i)"
  using assms
proof (induction key xs v i arbitrary: ys rule: sift_up.induct)
  case (1 key xs v i)
  let ?p = "(i - 1) div 2"
  have len: "length ys = length xs"
    using "1.prems"(2) by (simp add: list_all2_lengthD)
  show ?case
  proof (cases "i = 0")
    case True
    then show ?thesis
      using "1.prems" by (subst sift_up.simps, subst (2) sift_up.simps) (simp add: list_all2_update_cong)
  next
    case False
    then have pi: "?p < i" by arith
    then have Rp: "R (xs ! ?p) (ys ! ?p)"
      using "1.prems"(2,4) by (simp add: list_all2_nthD)
    have cmp: "(key (xs ! ?p) \<le> key v) = (key' (ys ! ?p) \<le> key' w)"
      using "1.prems"(1) Rp "1.prems"(3) by (rule same_orderD)
    show ?thesis
    proof (cases "key (xs ! ?p) \<le> key v")
      case True
      then show ?thesis
        using False cmp "1.prems"
        by (subst sift_up.simps, subst (2) sift_up.simps) (simp add: list_all2_update_cong)
    next
      case nle: False
      have "list_all2 R (sift_up key (xs[i := xs ! ?p]) v ?p) (sift_up key' (ys[i := ys ! ?p]) w ?p)"
        using False nle "1.prems" Rp pi
        by (intro "1.IH") (simp_all add: list_all2_update_cong)
      then show ?thesis
        using False nle cmp
        by (subst sift_up.simps, subst (2) sift_up.simps) simp
    qed
  qed
qed

lemma min_child_rel:
  assumes "same_order R key key'" "list_all2 R xs ys" "n \<le> length xs"
  shows "min_child key n xs i = min_child key' n ys i"
proof (cases "2 * i + 2 < n")
  case True
  then have "R (xs ! (2 * i + 2)) (ys ! (2 * i + 2))" "R (xs ! (2 * i + 1)) (ys ! (2 * i + 1))"
    using assms(2,3) by (simp_all add: list_all2_nthD)
  then have "(key (xs ! (2 * i + 2)) \<le> key (xs ! (2 * i + 1)))
               = (key' (ys ! (2 * i + 2)) \<le> key' (ys ! (2 * i + 1)))"
    using assms(1) by (simp add: same_orderD)
  then show ?thesis
    by (simp add: min_child_def)
next
  case False
  then show ?thesis
    by (simp add: min_child_def)
qed

lemma sift_down_rel:
  assumes "same_order R key key'" "list_all2 R xs ys" "R t u" "n \<le> length xs"
  shows "list_all2 R (sift_down key n t xs i) (sift_down key' n u ys i)"
  using assms
proof (induction key n t xs i arbitrary: ys rule: sift_down.induct)
  case (1 key n t xs i)
  let ?s = "min_child key n xs i"
  have s': "min_child key' n ys i = ?s"
    using "1.prems"(1,2,4) by (simp add: min_child_rel)
  show ?case
  proof (cases "n \<le> 2 * i + 1")
    case True
    then show ?thesis
      using "1.prems"
      by (subst sift_down.simps, subst (2) sift_down.simps) (simp add: list_all2_update_cong)
  next
    case False
    then have sn: "?s < n" by (rule min_child_less)
    then have Rs: "R (xs ! ?s) (ys ! ?s)"
      using "1.prems"(2,4) by (simp add: list_all2_nthD)
    have cmp: "(key t \<le> key (xs ! ?s)) = (key' u \<le> key' (ys ! ?s))"
      using "1.prems"(1,3) Rs by (rule same_orderD)
    show ?thesis
    proof (cases "key t \<le> key (xs ! ?s)")
      case True
      then show ?thesis
        using False cmp s' "1.prems"
        by (subst sift_down.simps, subst (2) sift_down.simps) (simp add: list_all2_update_cong)
    next
      case nle: False
      have "list_all2 R (sift_down key n t (xs[i := xs ! ?s]) ?s)
              (sift_down key' n u (ys[i := ys ! ?s]) ?s)"
        using False nle "1.prems" Rs
        by (intro "1.IH") (simp_all add: list_all2_update_cong)
      then show ?thesis
        using False nle cmp s'
        by (subst sift_down.simps, subst (2) sift_down.simps) simp
    qed
  qed
qed

lemma heap_push_rel:
  assumes "same_order R key key'" "list_all2 R xs ys" "R v w"
  shows "list_all2 R (heap_push key xs v) (heap_push key' ys w)"
proof -
  have "length ys = length xs"
    using assms(2) by (simp add: list_all2_lengthD)
  moreover have "list_all2 R (xs @ [v]) (ys @ [w])"
    using assms(2,3) by (simp add: list_all2_appendI)
  ultimately show ?thesis
    using assms(1,3) by (simp add: heap_push_def sift_up_rel)
qed

lemma heap_pop_rel:
  assumes "same_order R key key'" "list_all2 R xs ys" "xs \<noteq> []"
  shows "list_all2 R (heap_pop key xs) (heap_pop key' ys) \<and> R (hd xs) (hd ys)"
proof -
  have len: "length ys = length xs"
    using assms(2) by (simp add: list_all2_lengthD)
  then have ys: "ys \<noteq> []"
    using assms(3) by auto
  have "R (last xs) (last ys)"
    using assms(2,3) ys len by (simp add: last_conv_nth list_all2_nthD)
  moreover have "list_all2 R (butlast xs) (butlast ys)"
    using assms(2) len by (simp add: list_all2_conv_all_nth nth_butlast)
  moreover have "R (hd xs) (hd ys)"
    using assms(2,3) ys by (cases xs; cases ys) auto
  ultimately show ?thesis
    using assms(1) len by (simp add: heap_pop_def sift_down_rel)
qed

section \<open>The two pop loops in lockstep\<close>

text \<open>
  Whatever the count, the loop of \<^verbatim>\<open>queue_pop\<close> and the loop of \<^verbatim>\<open>event_queue_pop\<close>
  make the same moves on arrays whose slots below the count are related by \<open>R\<close>, when
  the two comparisons agree on related elements: if one of them leaves the loop, so does
  the other, at the same index. The index arithmetic is the same in both, wrap-around
  included, and neither writes the slot of \<^verbatim>\<open>temp\<close>, so that the copy of \<^verbatim>\<open>queue_pop\<close>
  and the pointer of \<^verbatim>\<open>event_queue_pop\<close> read the same element.
\<close>

lemma cmp_rel:
  "same_order R when sint \<Longrightarrow> R e1 k1 \<Longrightarrow> R e2 k2 \<Longrightarrow> EVENT_CMP e1 e2 = CMP k1 k2"
  by (simp add: EVENT_CMP_def CMP_sint same_orderD)

lemma take_rel_nth:
  "list_all2 R (take k xs) (take k ys) \<Longrightarrow> i < k \<Longrightarrow> k \<le> length xs \<Longrightarrow> R (xs ! i) (ys ! i)"
  using list_all2_nthD [of R "take k xs" "take k ys" i] list_all2_lengthD [of R "take k xs" "take k ys"]
  by simp

lemma pick_rel:
  fixes n swap :: "32 word"
  assumes "same_order R when sint" "list_all2 R (take (unat n) de) (take (unat n) dq)"
    "unat n \<le> length de" "swap < n"
  shows "(if swap + 1 < n \<and> EVENT_CMP (de ! unat (swap + 1)) (de ! unat swap) then swap + 1 else swap)
       = (if swap + 1 < n \<and> CMP (dq ! unat (swap + 1)) (dq ! unat swap) then swap + 1 else swap)"
proof (cases "swap + 1 < n")
  case True
  have "R (de ! unat (swap + 1)) (dq ! unat (swap + 1))" "R (de ! unat swap) (dq ! unat swap)"
    using assms(2,3) word_less_unat [OF True] word_less_unat [OF assms(4)]
    by (simp_all add: take_rel_nth)
  then show ?thesis
    using cmp_rel [OF assms(1)] by simp
next
  case False
  then show ?thesis by simp
qed

lemma pop_loops_lockstep:
  assumes "event_queue_pop_loop n de index = Some re" "same_order R when sint"
  shows "\<forall>dq t. list_all2 R (take (unat n) de) (take (unat n) dq) \<and> R (de ! unat n) t \<and>
           unat n < length de \<and> unat n < length dq \<and> (index < n \<or> index = 0) \<longrightarrow>
         (\<exists>de' dq' j. re = Inr (de', j) \<and> queue_pop_loop n t dq index = Some (Inr (dq', j)) \<and>
            list_all2 R (take (unat n) de') (take (unat n) dq') \<and> de' ! unat n = de ! unat n \<and>
            length de' = length de \<and> length dq' = length dq \<and> (j < n \<or> j = 0))"
  using assms(1)
proof (induction rule: event_queue_pop_loop.raw_induct [rotated 1, consumes 1])
  case (1 loop n de index re)
  let ?swap = "push_bit 1 index + 1 :: 32 word"
  let ?k = "unat n"
  show ?case
  proof (intro allI impI)
    fix dq t
    assume a: "list_all2 R (take ?k de) (take ?k dq) \<and> R (de ! ?k) t \<and>
           ?k < length de \<and> ?k < length dq \<and> (index < n \<or> index = 0)"
    then have rel: "list_all2 R (take ?k de) (take ?k dq)" and rt: "R (de ! ?k) t"
      and l1: "?k < length de" and l2: "?k < length dq" and ix: "index < n \<or> index = 0"
      by simp_all
    show "\<exists>de' dq' j. re = Inr (de', j) \<and> queue_pop_loop n t dq index = Some (Inr (dq', j)) \<and>
            list_all2 R (take ?k de') (take ?k dq') \<and> de' ! ?k = de ! ?k \<and>
            length de' = length de \<and> length dq' = length dq \<and> (j < n \<or> j = 0)"
    proof (cases "n \<le> ?swap")
      case True
      then have "re = Inr (de, index)"
        using "1.hyps" by (simp add: Let_def)
      moreover have "queue_pop_loop n t dq index = Some (Inr (dq, index))"
        using True by (subst queue_pop_loop.simps) (simp add: Let_def)
      ultimately show ?thesis
        using rel ix by simp
    next
      case False
      then have sw: "?swap < n"
        by simp
      let ?c = "if ?swap + 1 < n \<and> EVENT_CMP (de ! unat (?swap + 1)) (de ! unat ?swap)
                then ?swap + 1 else ?swap"
      have c1: "event_queue_pop_child n de ?swap = Inr ?c"
        using sw l1 by (intro event_queue_pop_child_pick) simp_all
      have "queue_pop_child n dq ?swap
              = Inr (if ?swap + 1 < n \<and> CMP (dq ! unat (?swap + 1)) (dq ! unat ?swap)
                     then ?swap + 1 else ?swap)"
        using sw l2 by (intro queue_pop_child_pick) simp_all
      moreover have "?c = (if ?swap + 1 < n \<and> CMP (dq ! unat (?swap + 1)) (dq ! unat ?swap)
                     then ?swap + 1 else ?swap)"
        using assms(2) rel _ sw by (rule pick_rel) (use l1 in simp)
      ultimately have c2: "queue_pop_child n dq ?swap = Inr ?c"
        by simp
      have cn: "?c < n"
        using sw by simp
      then have cl: "unat ?c < ?k"
        by (rule word_less_unat)
      have n0: "n \<noteq> 0"
        using sw by auto
      then have "index < n"
        using ix by (auto simp: word_neq_0_conv)
      then have il: "unat index < ?k"
        by (rule word_less_unat)
      have rd1: "rd de n = Inr (de ! ?k)" "rd de ?c = Inr (de ! unat ?c)"
        using l1 cl by (simp_all add: rd_def)
      have rd2: "rd dq ?c = Inr (dq ! unat ?c)"
        using l2 cl by (simp add: rd_def)
      have rc: "R (de ! unat ?c) (dq ! unat ?c)"
        using rel cl l1 by (intro take_rel_nth [of R ?k]) simp_all
      have cmp: "EVENT_CMP (de ! ?k) (de ! unat ?c) = CMP t (dq ! unat ?c)"
        using assms(2) rt rc by (rule cmp_rel)
      show ?thesis
      proof (cases "EVENT_CMP (de ! ?k) (de ! unat ?c)")
        case True
        then have "re = Inr (de, index)"
          using "1.hyps" False c1 rd1 by (simp add: Let_def)
        moreover have "queue_pop_loop n t dq index = Some (Inr (dq, index))"
          using True cmp False c2 rd2 by (subst queue_pop_loop.simps) (simp add: Let_def)
        ultimately show ?thesis
          using rel ix by simp
      next
        case nle: False
        let ?de = "de[unat index := de ! unat ?c]"
        let ?dq = "dq[unat index := dq ! unat ?c]"
        have w1: "wr de index (de ! unat ?c) = Inr ?de"
          using il l1 by (simp add: wr_def)
        have w2: "wr dq index (dq ! unat ?c) = Inr ?dq"
          using il l2 by (simp add: wr_def)
        have "loop n ?de ?c = Some re"
          using "1.hyps" False c1 rd1 nle w1 by (simp add: Let_def)
        then have IH: "\<forall>dq t. list_all2 R (take ?k ?de) (take ?k dq) \<and> R (?de ! ?k) t \<and>
           ?k < length ?de \<and> ?k < length dq \<and> (?c < n \<or> ?c = 0) \<longrightarrow>
         (\<exists>de' dq' j. re = Inr (de', j) \<and> queue_pop_loop n t dq ?c = Some (Inr (dq', j)) \<and>
            list_all2 R (take ?k de') (take ?k dq') \<and> de' ! ?k = ?de ! ?k \<and>
            length de' = length ?de \<and> length dq' = length dq \<and> (j < n \<or> j = 0))"
          by (rule "1.IH")
        have rel': "list_all2 R (take ?k ?de) (take ?k ?dq)"
          using rel rc by (simp add: take_update_swap list_all2_update_cong)
        have keep: "?de ! ?k = de ! ?k"
          using il by simp
        obtain de' dq' j where r: "re = Inr (de', j)"
          "queue_pop_loop n t ?dq ?c = Some (Inr (dq', j))"
          "list_all2 R (take ?k de') (take ?k dq')" "de' ! ?k = ?de ! ?k"
          "length de' = length ?de" "length dq' = length ?dq" "j < n \<or> j = 0"
          using IH [rule_format, of ?dq t] rel' rt keep l1 l2 cn by auto
        have "queue_pop_loop n t dq index = queue_pop_loop n t ?dq ?c"
          using False c2 rd2 nle cmp w2 by (subst queue_pop_loop.simps) (simp add: Let_def)
        then show ?thesis
          using r keep by simp
      qed
    qed
  qed
qed

lemma pop_loops_lockstep_back:
  assumes "queue_pop_loop n t dq index = Some rq" "same_order R when sint"
  shows "\<forall>de. list_all2 R (take (unat n) de) (take (unat n) dq) \<and> R (de ! unat n) t \<and>
           unat n < length de \<and> unat n < length dq \<and> (index < n \<or> index = 0) \<longrightarrow>
         (\<exists>de' dq' j. rq = Inr (dq', j) \<and> event_queue_pop_loop n de index = Some (Inr (de', j)))"
  using assms(1)
proof (induction rule: queue_pop_loop.raw_induct [rotated 1, consumes 1])
  case (1 loop n t dq index rq)
  let ?swap = "push_bit 1 index + 1 :: 32 word"
  let ?k = "unat n"
  show ?case
  proof (intro allI impI)
    fix de
    assume a: "list_all2 R (take ?k de) (take ?k dq) \<and> R (de ! ?k) t \<and>
           ?k < length de \<and> ?k < length dq \<and> (index < n \<or> index = 0)"
    then have rel: "list_all2 R (take ?k de) (take ?k dq)" and rt: "R (de ! ?k) t"
      and l1: "?k < length de" and l2: "?k < length dq" and ix: "index < n \<or> index = 0"
      by simp_all
    show "\<exists>de' dq' j. rq = Inr (dq', j) \<and> event_queue_pop_loop n de index = Some (Inr (de', j))"
    proof (cases "n \<le> ?swap")
      case True
      then have "rq = Inr (dq, index)"
        using "1.hyps" by (simp add: Let_def)
      moreover have "event_queue_pop_loop n de index = Some (Inr (de, index))"
        using True by (subst event_queue_pop_loop.simps) (simp add: Let_def)
      ultimately show ?thesis
        by simp
    next
      case False
      then have sw: "?swap < n"
        by simp
      let ?c = "if ?swap + 1 < n \<and> EVENT_CMP (de ! unat (?swap + 1)) (de ! unat ?swap)
                then ?swap + 1 else ?swap"
      have c1: "event_queue_pop_child n de ?swap = Inr ?c"
        using sw l1 by (intro event_queue_pop_child_pick) simp_all
      have "queue_pop_child n dq ?swap
              = Inr (if ?swap + 1 < n \<and> CMP (dq ! unat (?swap + 1)) (dq ! unat ?swap)
                     then ?swap + 1 else ?swap)"
        using sw l2 by (intro queue_pop_child_pick) simp_all
      moreover have "?c = (if ?swap + 1 < n \<and> CMP (dq ! unat (?swap + 1)) (dq ! unat ?swap)
                     then ?swap + 1 else ?swap)"
        using assms(2) rel _ sw by (rule pick_rel) (use l1 in simp)
      ultimately have c2: "queue_pop_child n dq ?swap = Inr ?c"
        by simp
      have cn: "?c < n"
        using sw by simp
      then have cl: "unat ?c < ?k"
        by (rule word_less_unat)
      have n0: "n \<noteq> 0"
        using sw by auto
      then have "index < n"
        using ix by (auto simp: word_neq_0_conv)
      then have il: "unat index < ?k"
        by (rule word_less_unat)
      have rd1: "rd de n = Inr (de ! ?k)" "rd de ?c = Inr (de ! unat ?c)"
        using l1 cl by (simp_all add: rd_def)
      have rd2: "rd dq ?c = Inr (dq ! unat ?c)"
        using l2 cl by (simp add: rd_def)
      have rc: "R (de ! unat ?c) (dq ! unat ?c)"
        using rel cl l1 by (intro take_rel_nth [of R ?k]) simp_all
      have cmp: "EVENT_CMP (de ! ?k) (de ! unat ?c) = CMP t (dq ! unat ?c)"
        using assms(2) rt rc by (rule cmp_rel)
      show ?thesis
      proof (cases "CMP t (dq ! unat ?c)")
        case True
        then have "rq = Inr (dq, index)"
          using "1.hyps" False c2 rd2 by (simp add: Let_def)
        moreover have "event_queue_pop_loop n de index = Some (Inr (de, index))"
          using True cmp False c1 rd1 by (subst event_queue_pop_loop.simps) (simp add: Let_def)
        ultimately show ?thesis
          by simp
      next
        case nle: False
        let ?de = "de[unat index := de ! unat ?c]"
        let ?dq = "dq[unat index := dq ! unat ?c]"
        have w1: "wr de index (de ! unat ?c) = Inr ?de"
          using il l1 by (simp add: wr_def)
        have w2: "wr dq index (dq ! unat ?c) = Inr ?dq"
          using il l2 by (simp add: wr_def)
        have "loop n t ?dq ?c = Some rq"
          using "1.hyps" False c2 rd2 nle w2 by (simp add: Let_def)
        then have IH: "\<forall>de. list_all2 R (take ?k de) (take ?k ?dq) \<and> R (de ! ?k) t \<and>
           ?k < length de \<and> ?k < length ?dq \<and> (?c < n \<or> ?c = 0) \<longrightarrow>
         (\<exists>de' dq' j. rq = Inr (dq', j) \<and> event_queue_pop_loop n de ?c = Some (Inr (de', j)))"
          by (rule "1.IH")
        have rel': "list_all2 R (take ?k ?de) (take ?k ?dq)"
          using rel rc by (simp add: take_update_swap list_all2_update_cong)
        have keep: "?de ! ?k = de ! ?k"
          using il by simp
        obtain de' dq' j where r: "rq = Inr (dq', j)"
          "event_queue_pop_loop n ?de ?c = Some (Inr (de', j))"
          using IH [rule_format, of ?de] rel' rt keep l1 l2 cn by auto
        have "event_queue_pop_loop n de index = event_queue_pop_loop n ?de ?c"
          using False c1 rd1 nle cmp w1 by (subst event_queue_pop_loop.simps) (simp add: Let_def)
        then show ?thesis
          using r by simp
      qed
    qed
  qed
qed

section \<open>The integer heap against the event queue\<close>

text \<open>
  A run of the integer heap under a list of operations, as \<open>run_event_queue\<close> is for the
  event queue. \<open>preconditions m ops n\<close> says that the caller keeps its two promises
  along \<open>ops\<close>, starting with \<open>n\<close> stored elements: fewer than \<open>m\<close> elements are
  stored before every insert, and at least one before every extraction.
\<close>

fun run_queue :: "32 word op list \<Rightarrow> queue \<Rightarrow> (32 word, queue) run_result" where
  "run_queue [] h = Finished [] h"
| "run_queue (Push k # ops) h =
     (case queue_push h k of
        Inl _ \<Rightarrow> Push_fault
      | Inr h' \<Rightarrow> run_queue ops h')"
| "run_queue (Pop # ops) h =
     (if qcount h = 0 then Pop_on_empty
      else case queue_pop h of
             None \<Rightarrow> Pop_diverges
           | Some (Inl _) \<Rightarrow> Pop_fault
           | Some (Inr (k, h')) \<Rightarrow>
               (case run_queue ops h' of
                  Finished ks h'' \<Rightarrow> Finished (k # ks) h''
                | r \<Rightarrow> r))"

fun preconditions :: "nat \<Rightarrow> 'a op list \<Rightarrow> nat \<Rightarrow> bool" where
  "preconditions m [] n = True"
| "preconditions m (Push x # ops) n = (n < m \<and> preconditions m ops (Suc n))"
| "preconditions m (Pop # ops) n = (0 < n \<and> preconditions m ops (n - 1))"

text \<open>
  An event carries the key \<open>k\<close> as its timestamp when \<^verbatim>\<open>when\<close> is \<^verbatim>\<open>(uint64_t) k\<close>: the
  conversion of C from \<^verbatim>\<open>int\<close>, which extends the sign.
\<close>

definition carries :: "event \<Rightarrow> 32 word \<Rightarrow> bool" where
  "carries e k = (when e = scast k)"

text \<open>
  The two orders agree on keys of one sign, and only there: \<^verbatim>\<open>(uint64_t) k\<close> is
  \<open>k\<close> for \<open>k \<ge> 0\<close> and \<open>k + 2^64\<close> for \<open>k < 0\<close>. \<open>carries_sign s e k\<close>: the event
  carries the key, and the key is negative exactly when \<open>s\<close> holds.
\<close>

definition carries_sign :: "bool \<Rightarrow> event \<Rightarrow> 32 word \<Rightarrow> bool" where
  "carries_sign s e k = ((k <s 0) = s \<and> carries e k)"

lemma uint_scast_nonneg:
  assumes "0 \<le>s (k :: 32 word)"
  shows "uint (scast k :: 64 word) = sint k"
proof -
  have 0: "0 \<le> sint k"
    using assms by (simp add: word_sle_eq)
  have "sint k < 2 ^ 31"
    using sint_lt [of k] by simp
  then have "sint k < 2 ^ 64"
    by simp
  then have "sint k mod 2 ^ 64 = sint k"
    using 0 by simp
  moreover have "uint (scast k :: 64 word) = sint k mod 2 ^ 64"
    by (simp only: scast_eq uint_word_of_int) simp
  ultimately show ?thesis
    by simp
qed

lemma uint_scast_negative:
  assumes "(k :: 32 word) <s 0"
  shows "uint (scast k :: 64 word) = sint k + 2 ^ 64"
proof -
  have 0: "sint k < 0"
    using assms by (simp add: word_sless_alt)
  have "- (2 ^ 31) \<le> sint k"
    using sint_ge [of k] by simp
  then have b: "0 \<le> sint k + 2 ^ 64" "sint k + 2 ^ 64 < 2 ^ 64"
    using 0 by simp_all
  have "sint k mod 2 ^ 64 = (sint k + 2 ^ 64) mod 2 ^ 64"
    by (simp only: mod_add_self2)
  also have "\<dots> = sint k + 2 ^ 64"
    using b by (rule mod_pos_pos_trivial)
  finally have "sint k mod 2 ^ 64 = sint k + 2 ^ 64" .
  moreover have "uint (scast k :: 64 word) = sint k mod 2 ^ 64"
    by (simp only: scast_eq uint_word_of_int) simp
  ultimately show ?thesis
    by simp
qed

lemma same_order_carries_sign: "same_order (carries_sign s) when sint"
proof (cases s)
  case True
  then show ?thesis
    unfolding same_order_def carries_sign_def carries_def
    by (auto simp: word_le_def uint_scast_negative)
next
  case False
  then show ?thesis
    unfolding same_order_def carries_sign_def carries_def
    by (auto simp: word_le_def uint_scast_nonneg word_sless_alt word_sle_eq)
qed

lemma carries_map:
  "list_all2 carries es ks \<Longrightarrow> map when es = map scast ks"
  by (induction rule: list_all2_induct) (auto simp: carries_def)

lemma carries_sign_carries:
  "list_all2 (carries_sign s) es ks \<Longrightarrow> list_all2 carries es ks"
  by (erule list_all2_mono) (simp add: carries_sign_def)

lemma event_queue_push_room:
  assumes "valid_queue h" "count h \<noteq> cap h"
  shows "\<exists>h'. event_queue_push a h v = Inr (0, h')"
proof -
  obtain d where d: "buffer h = Some d" "length d = unat (cap h)" "count h \<le> cap h"
    using assms(1) by (auto simp: valid_queue_def split: option.splits)
  have lt: "unat (count h) < length d"
    using assms(2) d by (simp add: word_le_nat_alt word_unat_eq_iff)
  have "event_queue_push a h v
          = Inr (0, h\<lparr>count := count h + 1, buffer := Some (sift_up when d v (unat (count h)))\<rparr>)"
    using assms(2) d event_queue_push_store [where g = "h\<lparr>count := count h + 1\<rparr>" and v = v, OF lt]
    by (simp add: event_queue_push_def Let_def)
  then show ?thesis
    by blast
qed

lemma pops_lockstep:
  assumes "same_order R when sint" "valid_queue h" "count h \<noteq> 0"
    "unat (qcount q) = unat (count h)" "unat (qcount q) \<le> length (qdata q)"
    "list_all2 R (live h) (qlive q)"
  shows "(event_queue_pop h = None \<and> queue_pop q = None) \<or>
         (\<exists>e h' k q'. event_queue_pop h = Some (Inr (e, h')) \<and> queue_pop q = Some (Inr (k, q')) \<and>
            R e k \<and> valid_queue h' \<and> unat (count h') = unat (count h) - 1 \<and> cap h' = cap h \<and>
            unat (qcount q') = unat (count h') \<and> length (qdata q') = length (qdata q) \<and>
            list_all2 R (live h') (qlive q'))"
proof -
  obtain de where de: "buffer h = Some de" "length de = unat (cap h)" "count h \<le> cap h"
    using assms(2) by (auto simp: valid_queue_def split: option.splits)
  let ?dq = "qdata q"
  let ?n = "count h - 1"
  have qc: "qcount q = count h"
    using assms(4) by (simp add: word_unat_eq_iff)
  have c0: "0 < unat (count h)"
    using assms(3) by (simp add: unat_gt_0)
  have un: "unat ?n = unat (count h) - 1"
    using assms(3) by (rule unat_pred)
  have suc: "Suc (unat ?n) = unat (count h)"
    using un c0 by simp
  have cl: "unat (count h) \<le> length de"
    using de by (simp add: word_le_nat_alt)
  have l1: "unat ?n < length de" and l2: "unat ?n < length ?dq"
    using un c0 cl assms(4,5) by simp_all
  have ne: "de \<noteq> []" "?dq \<noteq> []"
    using l1 l2 by auto
  have rel1: "list_all2 R (take (Suc (unat ?n)) de) (take (Suc (unat ?n)) ?dq)"
    using assms(6) de(1) qc by (simp add: live_def qlive_def suc)
  have "list_all2 R (take (unat ?n) (take (Suc (unat ?n)) de))
          (take (unat ?n) (take (Suc (unat ?n)) ?dq))"
    using rel1 by (rule list_all2_takeI)
  then have rel: "list_all2 R (take (unat ?n) de) (take (unat ?n) ?dq)"
    by simp
  have rt: "R (de ! unat ?n) (?dq ! unat ?n)" and r0: "R (de ! 0) (?dq ! 0)"
    using rel1 l1 by (auto intro: take_rel_nth [of R "Suc (unat ?n)"])
  let ?t = "?dq ! unat ?n"
  show ?thesis
  proof (cases "event_queue_pop_loop ?n de 0")
    case None
    have "queue_pop_loop ?n ?t ?dq 0 = None"
    proof (cases "queue_pop_loop ?n ?t ?dq 0")
      case (Some rq)
      then have "\<exists>de' dq' j. rq = Inr (dq', j) \<and> event_queue_pop_loop ?n de 0 = Some (Inr (de', j))"
        using pop_loops_lockstep_back [OF Some assms(1)] rel rt l1 l2 by blast
      then show ?thesis
        using None by simp
    qed simp
    then have "queue_pop q = None"
      using l2 ne qc by (simp add: queue_pop_def Let_def rd_def)
    moreover have "event_queue_pop h = None"
      using None de(1) ne by (simp add: event_queue_pop_def Let_def rd_def)
    ultimately show ?thesis
      by simp
  next
    case (Some re)
    obtain de' dq' j where loop: "re = Inr (de', j)"
      "queue_pop_loop ?n ?t ?dq 0 = Some (Inr (dq', j))"
      "list_all2 R (take (unat ?n) de') (take (unat ?n) dq')" "de' ! unat ?n = de ! unat ?n"
      "length de' = length de" "length dq' = length ?dq" "j < ?n \<or> j = 0"
      using pop_loops_lockstep [OF Some assms(1)] rel rt l1 l2 by blast
    have jl: "unat j \<le> unat ?n"
      using loop(7) word_less_unat [of j ?n] by auto
    let ?h = "h\<lparr>count := ?n, buffer := Some (de'[unat j := de ! unat ?n])\<rparr>"
    let ?q = "q\<lparr>qcount := ?n, qdata := dq'[unat j := ?t]\<rparr>"
    have p1: "event_queue_pop h = Some (Inr (de ! 0, ?h))"
      using de(1) Some loop(1,4,5) jl l1 ne by (simp add: event_queue_pop_def Let_def rd_def wr_def)
    have p2: "queue_pop q = Some (Inr (?dq ! 0, ?q))"
      using loop(2,6) jl l2 ne qc by (simp add: queue_pop_def Let_def rd_def wr_def)
    have "list_all2 R (live ?h) (qlive ?q)"
      using loop(3) rt by (simp add: live_def qlive_def take_update_swap list_all2_update_cong)
    moreover have "valid_queue ?h"
      using de un loop(5) by (simp add: valid_queue_def word_le_nat_alt)
    ultimately show ?thesis
      using p1 p2 r0 un loop(6) by simp
  qed
qed

text \<open>
  \<open>one_sign ops n s\<close>: along \<open>ops\<close>, starting with \<open>n\<close> stored keys whose sign is \<open>s\<close>
  (negative when \<open>s\<close> holds), every key that is inserted while some key is stored has the
  sign of the stored keys. A key inserted into an empty heap may have either sign.
\<close>

fun one_sign :: "32 word op list \<Rightarrow> nat \<Rightarrow> bool \<Rightarrow> bool" where
  "one_sign [] n s = True"
| "one_sign (Push k # ops) n s = ((n = 0 \<or> (k <s 0) = s) \<and> one_sign ops (Suc n) (k <s 0))"
| "one_sign (Pop # ops) n s = one_sign ops (n - 1) s"

lemma runs_lockstep:
  assumes "one_sign iops (unat (count h)) s"
    "preconditions m iops (unat (count h))"
    "m \<le> unat (cap h)" "m \<le> length (qdata q)"
    "valid_queue h" "unat (qcount q) = unat (count h)"
    "list_all2 (carries_sign s) (live h) (qlive q)" "unat (count h) \<le> m"
    "list_all2 (rel_op (\<lambda>ae k. carries (snd ae) k)) eops iops"
  shows "((\<exists>es h' ks q'. run_event_queue eops h = Finished es h' \<and>
             run_queue iops q = Finished ks q' \<and> list_all2 carries es ks \<and>
             unat (qcount q') = unat (count h') \<and> list_all2 carries (live h') (qlive q')) \<or>
          (run_event_queue eops h = Pop_diverges \<and> run_queue iops q = Pop_diverges)) \<and>
         (m \<le> 2 ^ 31 + 1 \<longrightarrow> (\<exists>es h'. run_event_queue eops h = Finished es h'))"
  using assms
proof (induction iops arbitrary: eops h q s)
  case Nil
  from Nil.prems(9) have "eops = []"
    by simp
  then show ?case
    using Nil.prems(6,7) by (simp add: carries_sign_carries)
next
  case (Cons iop iops)
  obtain eop eops' where eops: "eops = eop # eops'" "rel_op (\<lambda>ae k. carries (snd ae) k) eop iop"
    "list_all2 (rel_op (\<lambda>ae k. carries (snd ae) k)) eops' iops"
    using Cons.prems(9) by (auto simp: list_all2_Cons2)
  let ?n = "unat (count h)"
  show ?case
  proof (cases iop)
    case (Push k)
    obtain a e where eop: "eop = Push (a, e)" "carries e k"
      using eops(2) Push by (cases eop) auto
    let ?s = "k <s 0"
    have k: "?n = 0 \<or> ?s = s" and rest: "one_sign iops (Suc ?n) ?s"
      using Cons.prems(1) Push by simp_all
    have n: "?n < m" "preconditions m iops (Suc ?n)"
      using Cons.prems(2) Push by simp_all
    have ne: "count h \<noteq> cap h"
      using n(1) Cons.prems(3) by auto
    then obtain h1 where push: "event_queue_push a h e = Inr (0, h1)"
      using event_queue_push_room [OF Cons.prems(5)] by blast
    note s0 = event_queue_push_success [OF Cons.prems(5) push]
    have h1: "valid_queue h1" "unat (count h1) = ?n + 1" "live h1 = heap_push when (live h) e"
      using s0 by blast+
    have cap1: "cap h1 = cap h"
      using s0 ne by simp
    have "unat (qcount q) < length (qdata q)" "unat (qcount q) < 2 ^ 32 - 1"
      using n(1) Cons.prems(3,4,6) unat_lt32 [of "cap h"] by simp_all
    then obtain q1 where q1: "queue_push q k = Inr q1" "unat (qcount q1) = unat (qcount q) + 1"
      "length (qdata q1) = length (qdata q)" "qlive q1 = heap_push sint (qlive q) k"
      using queue_push_room [of q k] by blast
    have ck: "carries_sign ?s e k"
      using eop(2) by (simp add: carries_sign_def)
    have rel0: "list_all2 (carries_sign ?s) (live h) (qlive q)"
    proof (cases "?n = 0")
      case True
      then have "live h = []" "qlive q = []"
        using Cons.prems(6) by (simp_all add: live_def qlive_def split: option.splits)
      then show ?thesis by simp
    next
      case False
      then show ?thesis
        using k Cons.prems(7) by simp
    qed
    have rel: "list_all2 (carries_sign ?s) (live h1) (qlive q1)"
      using heap_push_rel [OF same_order_carries_sign rel0 ck]
      by (simp add: h1(3) q1(4))
    have c1: "one_sign iops (unat (count h1)) ?s" "preconditions m iops (unat (count h1))"
      "m \<le> unat (cap h1)" "m \<le> length (qdata q1)" "unat (qcount q1) = unat (count h1)"
      "unat (count h1) \<le> m"
      using rest n h1(2) cap1 q1(2,3) Cons.prems(3,4,6) by simp_all
    note IH = Cons.IH [OF c1(1,2,3,4) h1(1) c1(5) rel c1(6) eops(3)]
    show ?thesis
      using IH push q1(1) by (simp add: eops(1) eop(1) Push)
  next
    case Pop
    have eop: "eop = Pop"
      using eops(2) Pop by (cases eop) auto
    have rest: "one_sign iops (?n - 1) s"
      using Cons.prems(1) Pop by simp
    have n: "0 < ?n" "preconditions m iops (?n - 1)"
      using Cons.prems(2) Pop by simp_all
    have nm: "?n \<le> m"
      by (rule Cons.prems(8))
    have ne: "count h \<noteq> 0" "qcount q \<noteq> 0"
      using n(1) Cons.prems(6) by (auto simp: unat_eq_0)
    have ql: "unat (qcount q) \<le> length (qdata q)"
      using nm Cons.prems(4,6) by simp
    note lock = pops_lockstep [OF same_order_carries_sign Cons.prems(5) ne(1) Cons.prems(6) ql
        Cons.prems(7)]
    show ?thesis
    proof (cases "event_queue_pop h")
      case None
      then have q: "queue_pop q = None"
        using lock by auto
      have "\<not> m \<le> 2 ^ 31 + 1"
      proof
        assume "m \<le> 2 ^ 31 + 1"
        then have "?n \<le> 2 ^ 31 + 1"
          using nm by simp
        then show False
          using event_queue_pop_nonempty [OF Cons.prems(5) ne(1)] None by auto
      qed
      then show ?thesis
        using None q ne by (simp add: eops(1) eop Pop)
    next
      case (Some r)
      then obtain e h1 k q1 where p: "event_queue_pop h = Some (Inr (e, h1))"
        "queue_pop q = Some (Inr (k, q1))" "carries_sign s e k" "valid_queue h1"
        "unat (count h1) = ?n - 1" "cap h1 = cap h" "unat (qcount q1) = unat (count h1)"
        "length (qdata q1) = length (qdata q)" "list_all2 (carries_sign s) (live h1) (qlive q1)"
        using lock by auto
      have c1: "one_sign iops (unat (count h1)) s" "preconditions m iops (unat (count h1))"
        "m \<le> unat (cap h1)" "m \<le> length (qdata q1)" "unat (count h1) \<le> m"
        using rest n nm p(5,6,8) Cons.prems(3,4) by simp_all
      note IH = Cons.IH [OF c1(1,2,3,4) p(4,7,9) c1(5) eops(3)]
      have ce: "carries e k"
        using p(3) by (simp add: carries_sign_def)
      show ?thesis
        using IH p(1,2) ne ce by (auto simp: eops(1) eop Pop)
    qed
  qed
qed

text \<open>
  Two finished runs are the same extraction when the timestamps extracted from the event
  queue are the keys extracted from the integer heap, in the same order, and the
  timestamps left in the event queue are the keys left in the integer heap, slot by slot.
\<close>

fun same_extraction ::
  "(event, event_queue) run_result \<Rightarrow> (32 word, queue) run_result \<Rightarrow> bool" where
  "same_extraction (Finished es h') (Finished ks q') =
     (map when es = map scast ks \<and> count h' = qcount q' \<and>
      map when (live h') = map scast (qlive q'))"
| "same_extraction _ _ = False"

text \<open>
  C9. On keys of one sign the two heaps run the same algorithm, whatever the capacity.
  Let a list of operations on keys keep the caller's promises for a capacity \<open>m\<close>, let
  every key inserted into a non-empty heap have the sign of the keys stored at that
  moment, let the integer heap have room for \<open>m\<close> keys and the event queue a capacity of
  at least \<open>m\<close> (so that it never grows), and let the event queue be given the same
  operations on events that carry those keys as timestamps. Then either both runs finish,
  and they are the same extraction, or both stop at the same pop, which returns in
  neither; and with \<open>m \<le> 2^31 + 1\<close> both runs finish.
\<close>

theorem same_algorithm_on_keys_of_one_sign:
  assumes "list_all2 (rel_op (\<lambda>ae k. carries (snd ae) k)) eops iops"
    "one_sign iops 0 s" "preconditions m iops 0"
    "m \<le> length (qdata q)" "m \<le> unat (cap h)"
    "valid_queue h" "count h = 0" "qcount q = 0"
  shows "(same_extraction (run_event_queue eops h) (run_queue iops q) \<or>
          (run_event_queue eops h = Pop_diverges \<and> run_queue iops q = Pop_diverges)) \<and>
         (m \<le> 2 ^ 31 + 1 \<longrightarrow> same_extraction (run_event_queue eops h) (run_queue iops q))"
proof -
  have start: "one_sign iops (unat (count h)) s" "preconditions m iops (unat (count h))"
    "unat (qcount q) = unat (count h)"
    "list_all2 (carries_sign s) (live h) (qlive q)" "unat (count h) \<le> m"
    using assms(2,3,6,7,8) by (simp_all add: live_def qlive_def split: option.splits)
  note lock = runs_lockstep [OF start(1,2) assms(5,4,6) start(3,4,5) assms(1)]
  have fin: "same_extraction (run_event_queue eops h) (run_queue iops q)"
    if r: "run_event_queue eops h = Finished es h'" "run_queue iops q = Finished ks q'"
      "list_all2 carries es ks" "unat (qcount q') = unat (count h')"
      "list_all2 carries (live h') (qlive q')" for es h' ks q'
  proof -
    have "count h' = qcount q'"
      using r(4) by (simp add: word_unat_eq_iff)
    then show ?thesis
      using r carries_map by simp
  qed
  have 1: "same_extraction (run_event_queue eops h) (run_queue iops q) \<or>
          (run_event_queue eops h = Pop_diverges \<and> run_queue iops q = Pop_diverges)"
    using lock fin by blast
  have 2: "same_extraction (run_event_queue eops h) (run_queue iops q)" if b: "m \<le> 2 ^ 31 + 1"
  proof -
    obtain es h' where "run_event_queue eops h = Finished es h'"
      using lock b by blast
    then show ?thesis
      using 1 by auto
  qed
  show ?thesis
    using 1 2 by blast
qed

text \<open>The event that carries the key \<open>k\<close>, with no payload.\<close>

definition key_event :: "32 word \<Rightarrow> event" where
  "key_event k = \<lparr>when = scast k, occur = 0, data = 0\<rparr>"

lemmas queue_eval_simps =
  queue_push_def queue_push_loop.simps queue_pop_def queue_pop_loop.simps
  queue_pop_child_def rd_def wr_def CMP_def Let_def word_le_nat_alt word_less_nat_alt word_sle_eq

theorem same_algorithm_on_keys_of_one_sign_witness:
  "list_all2 (rel_op (\<lambda>ae k. carries (snd ae) k))
     [Push (Alloc_fails, key_event 5), Push (Alloc_fails, key_event 2), Pop, Pop,
      Push (Alloc_fails, key_event (- 3)), Push (Alloc_fails, key_event (- 7)), Pop]
     [Push 5, Push 2, Pop, Pop, Push (- 3), Push (- 7), Pop] \<and>
   one_sign [Push 5, Push 2, Pop, Pop, Push (- 3), Push (- 7), Pop] 0 False \<and>
   preconditions 2 [Push 5, Push 2, Pop, Pop, Push (- 3), Push (- 7 :: 32 word), Pop] 0 \<and>
   run_event_queue
     [Push (Alloc_fails, key_event 5), Push (Alloc_fails, key_event 2), Pop, Pop,
      Push (Alloc_fails, key_event (- 3)), Push (Alloc_fails, key_event (- 7)), Pop]
     \<lparr>count = 0, cap = 2, buffer = Some [ev 0 0, ev 0 0]\<rparr>
     = Finished [key_event 2, key_event 5, key_event (- 7)]
         \<lparr>count = 1, cap = 2, buffer = Some [key_event (- 3), key_event (- 3)]\<rparr> \<and>
   run_queue [Push 5, Push 2, Pop, Pop, Push (- 3), Push (- 7), Pop] \<lparr>qcount = 0, qdata = [0, 0]\<rparr>
     = Finished [2, 5, - 7] \<lparr>qcount = 1, qdata = [- 3, - 3]\<rparr> \<and>
   same_extraction
     (run_event_queue
        [Push (Alloc_fails, key_event 5), Push (Alloc_fails, key_event 2), Pop, Pop,
         Push (Alloc_fails, key_event (- 3)), Push (Alloc_fails, key_event (- 7)), Pop]
        \<lparr>count = 0, cap = 2, buffer = Some [ev 0 0, ev 0 0]\<rparr>)
     (run_queue [Push 5, Push 2, Pop, Pop, Push (- 3), Push (- 7), Pop]
        \<lparr>qcount = 0, qdata = [0, 0]\<rparr>)"
proof -
  let ?eops = "[Push (Alloc_fails, key_event 5), Push (Alloc_fails, key_event 2), Pop, Pop,
                Push (Alloc_fails, key_event (- 3)), Push (Alloc_fails, key_event (- 7)), Pop]"
  let ?iops = "[Push 5, Push 2, Pop, Pop, Push (- 3), Push (- 7 :: 32 word), Pop]"
  let ?h = "\<lparr>count = 0, cap = 2, buffer = Some [ev 0 0, ev 0 0]\<rparr>"
  let ?q = "\<lparr>qcount = 0, qdata = [0, 0]\<rparr>"
  have 1: "list_all2 (rel_op (\<lambda>ae k. carries (snd ae) k)) ?eops ?iops"
    by (simp add: carries_def key_event_def)
  have 2: "one_sign ?iops 0 False"
    by (simp add: word_sless_alt)
  have 3: "preconditions 2 ?iops 0"
    by simp
  have 4: "2 \<le> length (qdata ?q)" "2 \<le> unat (cap ?h)"
    "valid_queue ?h" "count ?h = 0" "qcount ?q = 0"
    by (simp_all add: valid_queue_def)
  have b: "(2 :: nat) \<le> 2 ^ 31 + 1"
    by simp
  have e: "run_event_queue ?eops ?h
     = Finished [key_event 2, key_event 5, key_event (- 7)]
         \<lparr>count = 1, cap = 2, buffer = Some [key_event (- 3), key_event (- 3)]\<rparr>"
    by (simp add: key_event_def eval_simps)
  have q: "run_queue ?iops ?q = Finished [2, 5, - 7] \<lparr>qcount = 1, qdata = [- 3, - 3]\<rparr>"
    by (simp add: queue_eval_simps)
  show ?thesis
    using same_algorithm_on_keys_of_one_sign [OF 1 2 3 4] 1 2 3 b e q by (simp only:)
qed

section \<open>Determinism\<close>














section \<open>Beyond \<open>2^31 + 1\<close> events\<close>

text \<open>
  With more than \<open>2^31 + 1\<close> stored events the child index \<^verbatim>\<open>(index << 1) + 1\<close> of
  \<^verbatim>\<open>event_queue_pop\<close> can wrap around in \<^verbatim>\<open>unsigned int\<close>. Two heaps of \<open>2^31 + 2\<close>
  events show what follows. In both, the small timestamps sit on the left spine (the slots
  \<open>2^k - 1\<close>) and in slot \<open>2^31\<close>, the right child of the last spine slot \<open>2^30 - 1\<close>,
  so that the loop walks down the spine into slot \<open>2^31\<close>, whose left child index
  \<open>2^32 + 1\<close> wraps to 1.
\<close>

definition spine :: "nat set" where
  "spine =
    {3, 7, 15, 31, 63, 127, 255, 511, 1023, 2047, 4095, 8191, 16383, 32767, 65535, 131071,
     262143, 524287, 1048575, 2097151, 4194303, 8388607, 16777215, 33554431, 67108863,
     134217727, 268435455, 536870911, 1073741823}"

lemma when_ev: "when (ev w p) = of_nat w"
  by (simp add: ev_def)

lemma child_index_wraps: "(4294967297 :: 32 word) = 1"
  by simp

lemma heap_push_in_order:
  assumes "k < length ys" "heap_on key ys (length ys)"
  shows "heap_push key (take k ys) (ys ! k) = take (Suc k) ys"
proof -
  have t: "take k ys @ [ys ! k] = take (Suc k) ys"
    using assms(1) by (simp add: take_Suc_conv_app_nth)
  have l: "length (take k ys) = k"
    using assms(1) by simp
  have same: "(take (Suc k) ys)[k := ys ! k] = take (Suc k) ys"
    using assms(1) by (simp add: list_update_same_conv)
  show ?thesis
  proof (cases "k = 0")
    case True
    then show ?thesis
      using same unfolding heap_push_def t l by (subst sift_up.simps) simp
  next
    case False
    then have "key (ys ! ((k - 1) div 2)) \<le> key (ys ! k)"
      using assms by (simp add: heap_on_iff)
    moreover have "(k - 1) div 2 < Suc k"
      by arith
    ultimately show ?thesis
      using False same unfolding heap_push_def t l by (subst sift_up.simps) simp
  qed
qed

text \<open>
  Pushing the slots of a heap-ordered array in array order, into a queue of that capacity,
  rebuilds the array: no pushed event has to move up.
\<close>

lemma push_all_in_order:
  assumes "valid_queue h" "unat (cap h) = length ys" "heap_on when ys (length ys)"
    "unat (count h) = k" "k \<le> length ys" "live h = take k ys"
  shows "\<exists>h'. push_all h (map (Pair a) (drop k ys)) = Some h' \<and> valid_queue h' \<and>
           count h' = cap h \<and> cap h' = cap h \<and> live h' = ys"
  using assms
proof (induction "length ys - k" arbitrary: h k)
  case 0
  then have k: "k = length ys"
    by simp
  then have "count h = cap h"
    using "0.prems"(2,4) by (simp add: word_unat_eq_iff)
  then show ?case
    using k "0.prems" by simp
next
  case (Suc m)
  then have lt: "k < length ys"
    by simp
  then have ne: "count h \<noteq> cap h"
    using Suc.prems(2,4) by auto
  obtain h1 where p: "event_queue_push a h (ys ! k) = Inr (0, h1)"
    using event_queue_push_room [OF Suc.prems(1) ne] by blast
  note s0 = event_queue_push_success [OF Suc.prems(1) p]
  have s: "valid_queue h1" "unat (count h1) = unat (count h) + 1"
    "live h1 = heap_push when (live h) (ys ! k)"
    using s0 by blast+
  have s4: "cap h1 = cap h"
    using s0 ne by simp
  have live1: "live h1 = take (Suc k) ys"
    using s(3) Suc.prems(6) heap_push_in_order [OF lt Suc.prems(3)] by simp
  have m: "m = length ys - Suc k"
    using Suc.hyps(2) by simp
  have c1: "unat (cap h1) = length ys" "unat (count h1) = Suc k" "Suc k \<le> length ys"
    using s(2) s4 Suc.prems(2,4) lt by simp_all
  obtain h' where h': "push_all h1 (map (Pair a) (drop (Suc k) ys)) = Some h'" "valid_queue h'"
    "count h' = cap h1" "cap h' = cap h1" "live h' = ys"
    using Suc.hyps(1) [OF m s(1) c1(1) Suc.prems(3) c1(2,3) live1] by blast
  have "drop k ys = ys ! k # drop (Suc k) ys"
    using lt by (simp add: Cons_nth_drop_Suc)
  then show ?case
    using p h' s4 by simp
qed

subsection \<open>A pop that returns and breaks the heap property\<close>













subsection \<open>A pop that never returns\<close>

text \<open>
  Timestamps: 0 on the spine and in slot \<open>2^31\<close>, 9 everywhere else, so that the event
  moved by the pop has timestamp 9. The loop walks down the spine into slot \<open>2^31\<close>,
  the wrapped child index sends it back to slot 1, and every store writes the event that
  the slot already holds: the loop is back in a state it has been in.
\<close>

definition loop_key :: "nat \<Rightarrow> nat" where
  "loop_key i = (if i = 0 \<or> i = 1 \<or> i \<in> spine \<or> i = 2147483648 then 0 else 9)"

definition loop_buffer :: "event list" where
  "loop_buffer = map (\<lambda>i. ev (loop_key i) 0) [0..<2147483650]"

definition loop_queue :: event_queue where
  "loop_queue = \<lparr>count = 2147483650, cap = 2147483650, buffer = Some loop_buffer\<rparr>"

definition huge_init :: event_queue where
  "huge_init = \<lparr>count = 0, cap = 2147483650, buffer = Some (map junk0 [0..<2147483650])\<rparr>"

text \<open>The slots the loop keeps visiting.\<close>

definition cycle :: "32 word set" where
  "cycle =
    {1, 3, 7, 15, 31, 63, 127, 255, 511, 1023, 2047, 4095, 8191, 16383, 32767, 65535,
     131071, 262143, 524287, 1048575, 2097151, 4194303, 8388607, 16777215, 33554431,
     67108863, 134217727, 268435455, 536870911, 1073741823, 2147483648}"

lemma length_loop_buffer: "length loop_buffer = 2147483650"
  unfolding loop_buffer_def by (simp only: length_map length_upt diff_zero)

lemma nth_loop_buffer: "i < 2147483650 \<Longrightarrow> loop_buffer ! i = ev (loop_key i) 0"
  unfolding loop_buffer_def by (simp only: nth_map length_upt nth_upt diff_zero add_0)

lemma loop_buffer_same:
  "i < 2147483650 \<Longrightarrow> loop_key i = 0 \<Longrightarrow> loop_buffer[i := ev 0 0] = loop_buffer"
  by (simp add: list_update_same_conv length_loop_buffer nth_loop_buffer)

lemma loop_key_le: "loop_key i \<le> 9"
  by (simp add: loop_key_def)

lemma loop_key_heap: "0 < j \<Longrightarrow> loop_key ((j - 1) div 2) \<le> loop_key j"
  by (auto simp: loop_key_def spine_def)

lemma loop_buffer_heap: "heap_on when loop_buffer (length loop_buffer)"
proof -
  have "when (loop_buffer ! ((j - 1) div 2)) \<le> when (loop_buffer ! j)"
    if j: "0 < j" "j < 2147483650" for j
  proof -
    have "(j - 1) div 2 < 2147483650"
      using j by simp
    moreover have "(of_nat (loop_key ((j - 1) div 2)) :: 64 word) \<le> of_nat (loop_key j)"
      using loop_key_heap [OF j(1)] loop_key_le [of j]
      by (simp add: word_le_nat_alt unat_of_nat take_bit_nat_eq_self)
    ultimately show ?thesis
      using j by (simp add: nth_loop_buffer when_ev)
  qed
  then show ?thesis
    by (simp add: heap_on_iff length_loop_buffer)
qed

lemmas loop_simps =
  child_index_wraps event_queue_pop_child_def rd_def wr_def EVENT_CMP_def Let_def
  word_le_nat_alt word_less_nat_alt length_loop_buffer nth_loop_buffer loop_buffer_same
  loop_key_def spine_def when_ev

lemma event_queue_pop_loop_cycle:
  assumes "event_queue_pop_loop n d index = Some r"
  shows "\<not> (n = 2147483649 \<and> d = loop_buffer \<and> index \<in> cycle)"
  using assms
proof (induction rule: event_queue_pop_loop.raw_induct [rotated 1, consumes 1])
  case (1 loop n d index r)
  show ?case
  proof
    assume a: "n = 2147483649 \<and> d = loop_buffer \<and> index \<in> cycle"
    then have "\<exists>c\<in>cycle. loop 2147483649 loop_buffer c = Some r"
      using "1.hyps" by (auto simp: cycle_def loop_simps)
    then show False
      using "1.IH" by blast
  qed
qed

lemma loop_queue_pop: "event_queue_pop loop_queue = None"
proof -
  have "event_queue_pop_loop 2147483649 loop_buffer 0
          = event_queue_pop_loop 2147483649 loop_buffer 1"
    by (subst event_queue_pop_loop.simps) (simp add: loop_simps)
  moreover have "event_queue_pop_loop 2147483649 loop_buffer 1 = None"
    using event_queue_pop_loop_cycle [of 2147483649 loop_buffer 1]
    by (cases "event_queue_pop_loop 2147483649 loop_buffer 1") (auto simp: cycle_def)
  ultimately show ?thesis
    by (simp add: event_queue_pop_def loop_queue_def rd_def length_loop_buffer)
qed

lemma huge_init_pushes:
  "event_queue_init (Alloc_gives junk0) 2147483650 = (0, huge_init) \<and>
   push_all huge_init (map (Pair Alloc_fails) loop_buffer) = Some loop_queue"
proof -
  have i: "event_queue_init (Alloc_gives junk0) 2147483650 = (0, huge_init)"
    by (simp add: event_queue_init_def malloc_def realloc_def huge_init_def)
  have h0: "valid_queue huge_init" "count huge_init = 0" "cap huge_init = 2147483650"
    "live huge_init = []"
    using event_queue_init_valid [OF i] by simp_all
  have "unat (cap huge_init) = length loop_buffer" "unat (count huge_init) = 0"
    "0 \<le> length loop_buffer" "live huge_init = take 0 loop_buffer"
    using h0 by (simp_all add: length_loop_buffer)
  then obtain h' where h': "push_all huge_init (map (Pair Alloc_fails) (drop 0 loop_buffer)) = Some h'"
    "valid_queue h'" "count h' = cap huge_init" "cap h' = cap huge_init" "live h' = loop_buffer"
    using push_all_in_order [OF h0(1) _ loop_buffer_heap, of 0 Alloc_fails] by blast
  obtain d where d: "buffer h' = Some d" "length d = unat (cap h')"
    using h'(2) by (auto simp: valid_queue_def split: option.splits)
  have "take (unat (count h')) d = loop_buffer"
    using h'(5) d(1) by (simp add: live_def)
  then have "d = loop_buffer"
    using d(2) h'(3,4) by simp
  then have "h' = loop_queue"
    using d(1) h'(3,4) h0(3) by (cases h') (simp add: loop_queue_def)
  then show ?thesis
    using i h'(1) by simp
qed





lemma run_event_queue_pushes:
  "push_all h vs = Some h1 \<Longrightarrow> run_event_queue (map Push vs @ ops) h = run_event_queue ops h1"
proof (induction vs arbitrary: h)
  case Nil
  then show ?case by simp
next
  case (Cons av vs)
  obtain a v where av: "av = (a, v)"
    by (cases av)
  show ?case
    using Cons.prems Cons.IH unfolding av
    by (auto split: sum.splits prod.splits if_splits)
qed

lemma huge_run_diverges:
  "run_event_queue (map Push (map (Pair Alloc_fails) loop_buffer) @ [Pop]) huge_init = Pop_diverges"
proof -
  have "push_all huge_init (map (Pair Alloc_fails) loop_buffer) = Some loop_queue"
    using huge_init_pushes by simp
  then have "run_event_queue (map Push (map (Pair Alloc_fails) loop_buffer) @ [Pop]) huge_init
               = run_event_queue [Pop] loop_queue"
    by (rule run_event_queue_pushes)
  moreover have "count loop_queue \<noteq> 0"
    by (simp add: loop_queue_def)
  ultimately show ?thesis
    using loop_queue_pop by simp
qed


section \<open>Where determinism and the common algorithm stop\<close>


text \<open>
  The keys of \<open>loop_buffer\<close>, and an integer heap with room for them. The integer heap
  makes the moves of the event queue: its pop does not return either.
\<close>

definition loop_keys :: "32 word list" where
  "loop_keys = map (\<lambda>i. of_nat (loop_key i)) [0..<2147483650]"

definition huge_queue :: queue where
  "huge_queue = \<lparr>qcount = 0, qdata = map (\<lambda>i. 0) [0..<2147483650]\<rparr>"

lemma length_loop_keys: "length loop_keys = 2147483650"
  unfolding loop_keys_def by (simp only: length_map length_upt diff_zero)

lemma nth_loop_keys: "i < 2147483650 \<Longrightarrow> loop_keys ! i = of_nat (loop_key i)"
  unfolding loop_keys_def by (simp only: nth_map length_upt nth_upt diff_zero add_0)

lemma length_huge_queue: "length (qdata huge_queue) = 2147483650"
  unfolding huge_queue_def by (simp only: queue.simps length_map length_upt diff_zero)

lemma loop_keys_carried: "list_all2 carries loop_buffer loop_keys"
  unfolding list_all2_conv_all_nth
  by (simp add: length_loop_buffer length_loop_keys nth_loop_buffer nth_loop_keys
      carries_def when_ev loop_key_def)

lemma loop_keys_nonneg: "k \<in> set loop_keys \<Longrightarrow> \<not> k <s 0"
proof -
  assume "k \<in> set loop_keys"
  then obtain i where "k = of_nat (loop_key i)"
    by (auto simp: in_set_conv_nth length_loop_keys nth_loop_keys)
  moreover have "loop_key i = 0 \<or> loop_key i = 9"
    by (simp add: loop_key_def)
  ultimately have "k = 0 \<or> k = 9"
    by auto
  then show ?thesis
    by (auto simp: word_sless_alt)
qed

lemma one_sign_pushes:
  assumes "\<forall>k\<in>set ks. \<not> k <s 0" "n = 0 \<or> \<not> s"
  shows "one_sign (map Push ks @ [Pop]) n s"
  using assms by (induction ks arbitrary: n s) simp_all

lemma preconditions_pushes:
  assumes "n + length xs \<le> m" "0 < n + length xs"
  shows "preconditions m (map Push xs @ [Pop]) n"
  using assms by (induction xs arbitrary: n) simp_all

lemma rel_pushes:
  assumes "list_all2 P xs ys"
  shows "list_all2 (rel_op P) (map Push xs @ [Pop]) (map Push ys @ [Pop])"
  using assms by (intro list_all2_appendI) (simp_all add: list_all2_map1 list_all2_map2)

lemma huge_queue_run_diverges: "run_queue (map Push loop_keys @ [Pop]) huge_queue = Pop_diverges"
proof -
  let ?eops = "map Push (map (Pair Alloc_fails) loop_buffer) @ [Pop]"
  let ?iops = "map Push loop_keys @ [Pop]"
  have i: "event_queue_init (Alloc_gives junk0) 2147483650 = (0, huge_init)"
    using huge_init_pushes by simp
  have h0: "valid_queue huge_init" "count huge_init = 0" "cap huge_init = 2147483650"
    "live huge_init = []"
    using event_queue_init_valid [OF i] by simp_all
  have q0: "qcount huge_queue = 0" "qlive huge_queue = []"
    by (simp_all add: huge_queue_def qlive_def)
  have 1: "one_sign ?iops (unat (count huge_init)) False"
    using loop_keys_nonneg h0(2) by (intro one_sign_pushes) simp_all
  have 2: "preconditions 2147483650 ?iops (unat (count huge_init))"
    using h0(2) by (intro preconditions_pushes) (simp_all add: length_loop_keys)
  have 3: "2147483650 \<le> unat (cap huge_init)" "2147483650 \<le> length (qdata huge_queue)"
    "unat (qcount huge_queue) = unat (count huge_init)"
    "list_all2 (carries_sign False) (live huge_init) (qlive huge_queue)"
    "unat (count huge_init) \<le> 2147483650"
    using h0 q0 by (simp_all add: length_huge_queue)
  have "list_all2 (\<lambda>ae k. carries (snd ae) k) (map (Pair Alloc_fails) loop_buffer) loop_keys"
    using loop_keys_carried by (simp add: list_all2_map1)
  then have 4: "list_all2 (rel_op (\<lambda>ae k. carries (snd ae) k)) ?eops ?iops"
    by (rule rel_pushes)
  show ?thesis
    using runs_lockstep [OF 1 2 3(1,2) h0(1) 3(3,4,5) 4] huge_run_diverges by simp
qed

text \<open>
  C9 as written fails on keys of both signs. The integer heap compares \<^verbatim>\<open>int\<close>
  values, the event queue compares \<^verbatim>\<open>uint64_t\<close> values, and \<^verbatim>\<open>(uint64_t) -1\<close> is the
  largest timestamp: after pushing 0 and then -1, the integer heap extracts -1 and the
  event queue extracts the event that carries 0. And keys need not come back at all: on
  the \<open>2^31 + 2\<close> keys of \<open>loop_keys\<close>, none of them negative, the pop returns in neither
  heap.
\<close>

theorem negative_key_counterexample:
  "carries (key_event 0) 0 \<and> carries (key_event (- 1)) (- 1) \<and>
   run_queue [Push 0, Push (- 1), Pop] \<lparr>qcount = 0, qdata = [7, 7]\<rparr>
     = Finished [- 1] \<lparr>qcount = 1, qdata = [0, 0]\<rparr> \<and>
   run_event_queue [Push (Alloc_fails, key_event 0), Push (Alloc_fails, key_event (- 1)), Pop]
     \<lparr>count = 0, cap = 2, buffer = Some [ev 0 0, ev 0 0]\<rparr>
     = Finished [key_event 0]
         \<lparr>count = 1, cap = 2, buffer = Some [key_event (- 1), key_event (- 1)]\<rparr> \<and>
   map when [key_event 0] \<noteq> map scast [- 1 :: 32 word] \<and>
   list_all2 carries loop_buffer loop_keys \<and>
   run_event_queue (map Push (map (Pair Alloc_fails) loop_buffer) @ [Pop]) huge_init
     = Pop_diverges \<and>
   run_queue (map Push loop_keys @ [Pop]) huge_queue = Pop_diverges"
proof -
  have "carries (key_event 0) 0 \<and> carries (key_event (- 1)) (- 1) \<and>
   run_queue [Push 0, Push (- 1), Pop] \<lparr>qcount = 0, qdata = [7, 7]\<rparr>
     = Finished [- 1] \<lparr>qcount = 1, qdata = [0, 0]\<rparr> \<and>
   run_event_queue [Push (Alloc_fails, key_event 0), Push (Alloc_fails, key_event (- 1)), Pop]
     \<lparr>count = 0, cap = 2, buffer = Some [ev 0 0, ev 0 0]\<rparr>
     = Finished [key_event 0]
         \<lparr>count = 1, cap = 2, buffer = Some [key_event (- 1), key_event (- 1)]\<rparr> \<and>
   map when [key_event 0] \<noteq> map scast [- 1 :: 32 word]"
    by (simp add: carries_def key_event_def eval_simps
        queue_push_def queue_push_loop.simps queue_pop_def queue_pop_loop.simps
        queue_pop_child_def CMP_def word_sle_eq)
  then show ?thesis
    using loop_keys_carried huge_run_diverges huge_queue_run_diverges by (simp only:) simp
qed

end
